theory Spec2Isabelle
  imports Main "HOL-Library.Sublist"
begin

section \<open>The device-name reprocessor: strings, rows and configuration\<close>

text \<open>
  The program verified here is the concurrent reprocessor (the script with
  \<open>CONCURRENCY_LIMIT\<close>, \<open>processedDevices\<close>, \<open>processRow\<close> and
  \<open>processCsvFile\<close>). A JavaScript string is modelled as a \<open>string\<close> whose characters
  are its code units, all below 256 (ASCII and the Latin-1 supplement); \<open>undefined\<close>
  is \<open>None\<close>.
\<close>

subsection \<open>String primitives\<close>

text \<open>
  \<open>toLowerCase\<close> on code units below 256: the capital letters, \<open>A\<close> to \<open>Z\<close> (codes 65 to
  90) and the accented capitals of Latin-1 (codes 192 to 222 without the multiplication
  sign 215), move up by 32, which for these codes is setting bit 5; every other
  character stays.
\<close>

definition toLowerChar :: "char \<Rightarrow> char" where
  "toLowerChar c =
     (let n = (of_char c :: nat) in
      if (65 \<le> n \<and> n \<le> 90) \<or> (192 \<le> n \<and> n \<le> 222 \<and> n \<noteq> 215)
      then (case c of Char b0 b1 b2 b3 b4 b5 b6 b7 \<Rightarrow> Char b0 b1 b2 b3 b4 True b6 b7)
      else c)"

definition toLowerCase :: "string \<Rightarrow> string" where
  "toLowerCase s = map toLowerChar s"

text \<open>\<open>s.includes(t)\<close>: \<open>t\<close> occurs in \<open>s\<close> as a contiguous substring.\<close>

fun includesStr :: "string \<Rightarrow> string \<Rightarrow> bool" where
  "includesStr [] t = (t = [])"
| "includesStr (c # s) t = (prefix t (c # s) \<or> includesStr s t)"

text \<open>\<open>v || d\<close> on an optional string: \<open>undefined\<close> and the empty string are falsy.\<close>

definition orDefault :: "string option \<Rightarrow> string \<Rightarrow> string" where
  "orDefault v d = (case v of None \<Rightarrow> d | Some s \<Rightarrow> if s = [] then d else s)"

subsection \<open>Numbers: the result of \<open>parseInt\<close>\<close>

datatype jsnum = NaN | Num int

text \<open>
  The white space and line terminators that \<open>parseInt\<close> skips, among the code units
  below 256: tab, line feed, vertical tab, form feed, carriage return, space and the
  no-break space (160).
\<close>

definition isWhiteSpace :: "char \<Rightarrow> bool" where
  "isWhiteSpace c = ((of_char c :: nat) \<in> {9, 10, 11, 12, 13, 32, 160})"

definition digitValue :: "char \<Rightarrow> nat option" where
  "digitValue c =
     (let n = (of_char c :: nat) in
      if 48 \<le> n \<and> n \<le> 57 then Some (n - 48)
      else if 97 \<le> n \<and> n \<le> 102 then Some (n - 87)
      else if 65 \<le> n \<and> n \<le> 70 then Some (n - 55)
      else None)"

definition isDigit :: "nat \<Rightarrow> char \<Rightarrow> bool" where
  "isDigit radix c = (case digitValue c of None \<Rightarrow> False | Some d \<Rightarrow> d < radix)"

definition digitsValue :: "nat \<Rightarrow> string \<Rightarrow> int" where
  "digitsValue radix ds =
     foldl (\<lambda>acc c. acc * int radix + int (case digitValue c of None \<Rightarrow> 0 | Some d \<Rightarrow> d)) 0 ds"

text \<open>
  \<open>parseInt(s)\<close> with no radix argument: leading white space is dropped, one sign is
  read, a \<open>0x\<close>/\<open>0X\<close> prefix selects radix 16 (otherwise 10), and the longest prefix of
  digits is the value; no digit at all gives \<open>NaN\<close>. (The rounding of integers whose
  magnitude exceeds 2 to the power 53 to a double is not modelled.)
\<close>

definition parseInt :: "string \<Rightarrow> jsnum" where
  "parseInt s =
     (let t = dropWhile isWhiteSpace s;
          neg = (take 1 t = ''-'');
          u = (if take 1 t = ''-'' \<or> take 1 t = ''+'' then drop 1 t else t);
          hex = (take 2 u = ''0x'' \<or> take 2 u = ''0X'');
          radix = (if hex then 16 else 10);
          v = (if hex then drop 2 u else u);
          z = takeWhile (isDigit radix) v
      in if z = [] then NaN
         else Num ((if neg then - 1 else 1) * digitsValue radix z))"

text \<open>\<open>batch.length >= CONCURRENCY_LIMIT\<close>: every comparison with \<open>NaN\<close> is false.\<close>

fun lengthGe :: "nat \<Rightarrow> jsnum \<Rightarrow> bool" where
  "lengthGe n NaN = False"
| "lengthGe n (Num w) = (int n \<ge> w)"

subsection \<open>Process environment and module-level constants\<close>

record env =
  ENV :: "string option"
  FILE_PATH :: "string option"
  CONCURRENCY_LIMIT_var :: "string option"

definition TABLE_NAME :: "env \<Rightarrow> string" where
  "TABLE_NAME e = orDefault (ENV e) ''qa'' @ ''-user''"

definition CONCURRENCY_LIMIT :: "env \<Rightarrow> jsnum" where
  "CONCURRENCY_LIMIT e = parseInt (orDefault (CONCURRENCY_LIMIT_var e) ''20'')"

subsection \<open>Rows\<close>

text \<open>
  A row of the CSV parser is an object keyed by header name, here an association list.
  A column that is absent reads as \<open>undefined\<close>; \<open>isValidRow\<close> only tests truthiness,
  for which \<open>undefined\<close> and the empty string agree, so \<open>col\<close> reads an absent column as
  the empty string. \<open>processRow\<close> is only ever called on rows that passed \<open>isValidRow\<close>.
\<close>

type_synonym row = "(string \<times> string) list"

definition col :: "row \<Rightarrow> string \<Rightarrow> string" where
  "col r k = (case map_of r k of None \<Rightarrow> [] | Some v \<Rightarrow> v)"

definition isValidRow :: "row \<Rightarrow> bool" where
  "isValidRow r = (col r ''suid'' \<noteq> [] \<and> col r ''zid'' \<noteq> [] \<and> col r ''sourceApp'' \<noteq> [])"

subsection \<open>OS classifier\<close>

definition getOsFromSourceApp :: "string \<Rightarrow> string option" where
  "getOsFromSourceApp sourceApp =
     (let sourceApp = toLowerCase sourceApp in
      if includesStr sourceApp ''mac'' then Some ''Mac''
      else if includesStr sourceApp ''windows'' then Some ''Windows''
      else None)"

subsection \<open>Dedup tracker\<close>

text \<open>
  \<open>processedDevices\<close> is a \<open>Set\<close>: insertion-ordered, no duplicates. It is a list here,
  \<open>setAdd\<close> is \<open>Set.prototype.add\<close> and \<open>length\<close> is \<open>size\<close>.
\<close>

definition setAdd :: "string \<Rightarrow> string list \<Rightarrow> string list" where
  "setAdd z ps = (if z \<in> set ps then ps else ps @ [z])"

definition shouldUpdateItem :: "string list \<Rightarrow> string \<Rightarrow> bool" where
  "shouldUpdateItem processedDevices zid = (zid \<notin> set processedDevices)"

section \<open>Store update executor\<close>

record key =
  pk :: string
  sk :: string

text \<open>
  The update expression \<open>"SET #name = :name, #os = :os"\<close> is kept in parsed form: the
  list of its \<open>SET\<close> actions, each a name placeholder and a value placeholder. The
  source sets no \<open>ConditionExpression\<close>; the field is there to say so.
\<close>

datatype updateExpression = SET "(string \<times> string) list"

record updateParams =
  TableName :: string
  Key :: key
  UpdateExpression :: updateExpression
  ExpressionAttributeNames :: "(string \<times> string) list"
  ExpressionAttributeValues :: "(string \<times> string) list"
  ConditionExpression :: "string option"

text \<open>
  \<open>updateItemWithOs\<close> builds the parameters and makes one call of
  \<open>docClient.update\<close>; the client is a parameter, the result is the client's.
\<close>

definition updateItemWithOs ::
  "string \<Rightarrow> (updateParams \<Rightarrow> 'r) \<Rightarrow> string \<Rightarrow> string \<Rightarrow> string \<Rightarrow> 'r" where
  "updateItemWithOs tableName docClient suid zid osValue =
     (let newName = ''Desktop Agent ('' @ osValue @ '')'';
          updateParams = \<lparr>
            TableName = tableName,
            Key = \<lparr> pk = suid, sk = ''device#'' @ zid \<rparr>,
            UpdateExpression = SET [(''#name'', '':name''), (''#os'', '':os'')],
            ExpressionAttributeNames = [(''#name'', ''name''), (''#os'', ''os'')],
            ExpressionAttributeValues = [('':name'', newName), ('':os'', toLowerCase osValue)],
            ConditionExpression = None \<rparr>
      in docClient updateParams)"

subsection \<open>The external store\<close>

type_synonym item = "string \<rightharpoonup> string"
type_synonym table = "key \<rightharpoonup> item"
type_synonym store = "string \<Rightarrow> table"

text \<open>
  Modelled from the spec: the placeholders of a request as the external store resolves
  them (the store and its client are not part of the repository). Each \<open>SET\<close> action
  names an attribute through \<open>ExpressionAttributeNames\<close> and a value through
  \<open>ExpressionAttributeValues\<close>; a placeholder that is not defined makes the request
  invalid.
\<close>

fun resolve :: "(string \<times> string) list \<Rightarrow> (string \<times> string) list \<Rightarrow>
    (string \<times> string) list \<Rightarrow> (string \<times> string) list option" where
  "resolve names vals [] = Some []"
| "resolve names vals ((n, v) # as) =
     (case (map_of names n, map_of vals v, resolve names vals as) of
        (Some a, Some x, Some rest) \<Rightarrow> Some ((a, x) # rest)
      | _ \<Rightarrow> None)"

text \<open>
  Modelled from the spec: setting attributes of an item of the external store, each
  named attribute overwritten, every other attribute kept.
\<close>

fun setAttrs :: "(string \<times> string) list \<Rightarrow> item \<Rightarrow> item" where
  "setAttrs [] it = it"
| "setAttrs ((a, x) # rest) it = setAttrs rest (it(a \<mapsto> x))"

text \<open>
  Modelled from the spec: the partial update of the external key-value store behind
  \<open>docClient.update\<close> (the AWS SDK and the service are not part of the repository).
  It overwrites exactly the attributes named by the \<open>SET\<close> actions in the item under
  the given key of the given table, last writer wins. What happens when no item has
  that key is the parameter \<open>upsert\<close>: the spec says such a record is not matched and
  nothing is inserted (\<open>False\<close>), the service's documented default creates the item
  (\<open>True\<close>). A request whose placeholders do not resolve, or that carries a condition,
  is rejected (\<open>None\<close>).
\<close>

definition storeUpdate :: "bool \<Rightarrow> updateParams \<Rightarrow> store \<Rightarrow> store option" where
  "storeUpdate upsert p s =
     (case ConditionExpression p of
        Some c \<Rightarrow> None
      | None \<Rightarrow>
         (case UpdateExpression p of SET actions \<Rightarrow>
            (case resolve (ExpressionAttributeNames p) (ExpressionAttributeValues p) actions of
               None \<Rightarrow> None
             | Some avs \<Rightarrow>
                (case s (TableName p) (Key p) of
                   None \<Rightarrow>
                     if upsert
                     then Some (s(TableName p := (s (TableName p))(Key p \<mapsto> setAttrs avs Map.empty)))
                     else Some s
                 | Some it \<Rightarrow>
                     Some (s(TableName p := (s (TableName p))(Key p \<mapsto> setAttrs avs it)))))))"

text \<open>A client that only records the requests it is given.\<close>

definition recordCall :: "updateParams \<Rightarrow> updateParams list \<Rightarrow> updateParams list" where
  "recordCall p calls = calls @ [p]"

section \<open>The pipeline\<close>

subsection \<open>Log, store traffic and state\<close>

text \<open>
  The logger's output, one constructor per message of the source (time stamps and the
  elapsed time are left out).
\<close>

datatype level = INFO | WARN | ERROR

datatype message =
    Processing string string string
  | SkippingUpdate string string
  | NoOsDetected string string
  | MissingData row
  | ProcessedRecords nat
  | CsvComplete nat nat
  | CsvNotFound string
  | StartingProcess string string
  | ProcessSummary
  | TotalProcessed nat
  | TotalUpdated nat
  | DevicesInSet nat
  | ExecutionTime
  | UnhandledException

text \<open>
  The observable history of a run: \<open>Update n p\<close> is the \<open>n\<close>-th call of
  \<open>docClient.update(p).promise()\<close> (the request is sent), \<open>Reply n ok\<close> is the moment
  that call's promise settles and the \<open>processRow\<close> awaiting it resumes, \<open>AllSettled\<close>
  is the moment an \<open>await Promise.allSettled(batch)\<close> returns.
\<close>

datatype event = Update nat updateParams | Reply nat bool | AllSettled

text \<open>
  The promise returned by \<open>processRow\<close>: still waiting for the reply to request \<open>n\<close>
  (and then to add \<open>zid\<close> to the tracker), fulfilled with \<open>{ updated: b }\<close>, or rejected.
\<close>

datatype promise = Pending nat string | Fulfilled bool | Rejected

record state =
  processedDevices :: "string list"
  batch :: "promise list"
  processedCount :: nat
  updatedCount :: nat
  calls :: nat
  logs :: "(level \<times> message) list"
  trace :: "event list"
  crashed :: bool

text \<open>
  \<open>crashed\<close> says that the process has been ended by an uncaught exception, which
  gives exit code 1; nothing runs after that.
\<close>

definition initial :: state where
  "initial = \<lparr> processedDevices = [], batch = [], processedCount = 0, updatedCount = 0,
               calls = 0, logs = [], trace = [], crashed = False \<rparr>"

definition logger :: "level \<Rightarrow> message \<Rightarrow> state \<Rightarrow> state" where
  "logger l m st = st\<lparr> logs := logs st @ [(l, m)] \<rparr>"

subsection \<open>Row processing\<close>

text \<open>\<open>docClient.update(params).promise()\<close>: the request goes out, numbered in call order.\<close>

definition docClientUpdate :: "updateParams \<Rightarrow> state \<Rightarrow> nat \<times> state" where
  "docClientUpdate p st =
     (calls st, st\<lparr> calls := calls st + 1, trace := trace st @ [Update (calls st) p] \<rparr>)"

text \<open>
  \<open>processRow\<close> up to its only \<open>await\<close>: it runs synchronously inside
  \<open>batch.push(processRow(docClient, row))\<close> and returns its promise.
\<close>

definition processRow :: "string \<Rightarrow> row \<Rightarrow> state \<Rightarrow> promise \<times> state" where
  "processRow tableName row st0 =
     (let suid = col row ''suid''; zid = col row ''zid''; sourceApp = col row ''sourceApp'';
          st = logger INFO (Processing suid zid sourceApp) st0
      in if \<not> shouldUpdateItem (processedDevices st) zid
         then (Fulfilled False, logger INFO (SkippingUpdate suid zid) st)
         else (case getOsFromSourceApp sourceApp of
                 None \<Rightarrow> (Fulfilled False, logger INFO (NoOsDetected suid zid) st)
               | Some osValue \<Rightarrow>
                   (case updateItemWithOs tableName docClientUpdate suid zid osValue st of
                      (n, st') \<Rightarrow> (Pending n zid, st'))))"

text \<open>
  The rest of \<open>processRow\<close>, after the \<open>await\<close>: when the reply to request \<open>n\<close> arrives,
  the invocation waiting for it either runs \<open>processedDevices.add(zid)\<close> and fulfils
  with \<open>{ updated: true }\<close>, or, the store having failed, rejects. \<open>fails n\<close> says which;
  a reply nobody in the batch waits for changes nothing.
\<close>

fun awaiting :: "nat \<Rightarrow> promise list \<Rightarrow> string option" where
  "awaiting n [] = None"
| "awaiting n (Pending m z # ps) = (if m = n then Some z else awaiting n ps)"
| "awaiting n (Fulfilled b # ps) = awaiting n ps"
| "awaiting n (Rejected # ps) = awaiting n ps"

fun settleWith :: "nat \<Rightarrow> promise \<Rightarrow> promise list \<Rightarrow> promise list" where
  "settleWith n r [] = []"
| "settleWith n r (Pending m z # ps) =
     (if m = n then r # ps else Pending m z # settleWith n r ps)"
| "settleWith n r (Fulfilled b # ps) = Fulfilled b # settleWith n r ps"
| "settleWith n r (Rejected # ps) = Rejected # settleWith n r ps"

definition deliver :: "(nat \<Rightarrow> bool) \<Rightarrow> nat \<Rightarrow> state \<Rightarrow> state" where
  "deliver fails n st =
     (case awaiting n (batch st) of
        None \<Rightarrow> st
      | Some zid \<Rightarrow>
          if fails n
          then st\<lparr> batch := settleWith n Rejected (batch st),
                   trace := trace st @ [Reply n False] \<rparr>
          else st\<lparr> processedDevices := setAdd zid (processedDevices st),
                   batch := settleWith n (Fulfilled True) (batch st),
                   trace := trace st @ [Reply n True] \<rparr>)"

text \<open>
  What the runtime does when a promise is rejected while no handler is attached to it.
  Node.js 12 to 14 print a warning and go on (\<open>Warning\<close>); from Node.js 15 on the
  default raises the rejection as an uncaught exception, which ends the process with
  exit code 1 (\<open>Fatal\<close>). The README asks for Node.js 12 or later, so both occur.
\<close>

datatype rejections = Warning | Fatal

text \<open>
  Replies that arrive while the loop is suspended waiting for the next row: the
  schedule \<open>sched\<close> names, for the number of rows read so far, the requests answered
  in that pause, in order. In such a pause nothing has been attached to the promises
  of the batch (\<open>batch.push(processRow(docClient, row))\<close> attaches no handler, and
  \<open>Promise.allSettled(batch)\<close> has not been called on this batch yet), so a failure
  that arrives now rejects a promise without a handler: under \<open>Fatal\<close> the process
  ends there.
\<close>

fun arriving :: "rejections \<Rightarrow> (nat \<Rightarrow> bool) \<Rightarrow> nat list \<Rightarrow> state \<Rightarrow> state" where
  "arriving rt fails [] st = st"
| "arriving rt fails (n # ns) st =
     (if awaiting n (batch st) \<noteq> None \<and> fails n \<and> rt = Fatal
      then (deliver fails n st)\<lparr> crashed := True \<rparr>
      else arriving rt fails ns (deliver fails n st))"

definition arrive ::
  "rejections \<Rightarrow> (nat \<Rightarrow> bool) \<Rightarrow> (nat \<Rightarrow> nat list) \<Rightarrow> state \<Rightarrow> state" where
  "arrive rt fails sched st =
     (if crashed st then st else arriving rt fails (sched (processedCount st)) st)"

subsection \<open>Windows\<close>

fun pendingIds :: "promise list \<Rightarrow> nat list" where
  "pendingIds [] = []"
| "pendingIds (Pending n z # ps) = n # pendingIds ps"
| "pendingIds (Fulfilled b # ps) = pendingIds ps"
| "pendingIds (Rejected # ps) = pendingIds ps"

text \<open>
  \<open>const results = await Promise.allSettled(batch)\<close> followed by the \<open>forEach\<close> that
  counts the results with \<open>status === "fulfilled" && value.updated\<close>: the loop is
  suspended until every promise of the batch has settled (the replies still missing
  arrive, here in batch order), rejected ones included.

  \<open>Promise.allSettled\<close> attaches a handler to every promise of the batch, so a
  failure that arrives during this wait is handled under either policy. A promise
  that was rejected earlier, under \<open>Warning\<close>, is still in the batch as rejected and is
  read here.
\<close>

definition countUpdated :: "promise list \<Rightarrow> nat" where
  "countUpdated results = length (filter (\<lambda>res. res = Fulfilled True) results)"

definition allSettled :: "(nat \<Rightarrow> bool) \<Rightarrow> state \<Rightarrow> state" where
  "allSettled fails st0 =
     (let st = fold (deliver fails) (pendingIds (batch st0)) st0;
          st = st\<lparr> trace := trace st @ [AllSettled] \<rparr>
      in st\<lparr> updatedCount := updatedCount st + countUpdated (batch st) \<rparr>)"

text \<open>The body of \<open>for await (const row of input)\<close>.\<close>

definition body :: "jsnum \<Rightarrow> string \<Rightarrow> (nat \<Rightarrow> bool) \<Rightarrow> row \<Rightarrow> state \<Rightarrow> state" where
  "body limit tableName fails row st0 =
     (let st1 = st0\<lparr> processedCount := processedCount st0 + 1 \<rparr>
      in if \<not> isValidRow row then logger WARN (MissingData row) st1
         else
           (case processRow tableName row st1 of (p, st2) \<Rightarrow>
              let st3 = st2\<lparr> batch := batch st2 @ [p] \<rparr>;
                  st4 = (if lengthGe (length (batch st3)) limit
                         then (allSettled fails st3)\<lparr> batch := [] \<rparr>
                         else st3)
              in if processedCount st4 mod 1000 = 0
                 then logger INFO (ProcessedRecords (processedCount st4)) st4
                 else st4))"

text \<open>The loop: it waits for the next row, and runs the body unless the process has ended.\<close>

fun forAwait ::
  "rejections \<Rightarrow> jsnum \<Rightarrow> string \<Rightarrow> (nat \<Rightarrow> bool) \<Rightarrow> (nat \<Rightarrow> nat list) \<Rightarrow> row list \<Rightarrow>
     state \<Rightarrow> state" where
  "forAwait rt limit tableName fails sched [] st = st"
| "forAwait rt limit tableName fails sched (row # rows) st =
     (let st' = arrive rt fails sched st
      in if crashed st' then st'
         else forAwait rt limit tableName fails sched rows (body limit tableName fails row st'))"

subsection \<open>The file and the run\<close>

text \<open>
  The input file: the rows the parser delivers, in order, and how the stream ends.
  \<open>fs.createReadStream(filePath).pipe(csv())\<close> does not forward an error of the read
  stream to the parser, and nothing listens for it: a read failure is an unhandled
  \<open>error\<close> event, an uncaught exception that ends the process. An error of the parser
  stream itself is thrown by \<open>for await\<close> and reaches the \<open>catch\<close> of \<open>main\<close>.
\<close>

datatype ending = EndOfFile | ReadFailure | ParserFailure

datatype csvFile = File "row list" ending

datatype error = StreamError | Uncaught

definition processCsvFile ::
  "rejections \<Rightarrow> jsnum \<Rightarrow> string \<Rightarrow> (nat \<Rightarrow> bool) \<Rightarrow> (nat \<Rightarrow> nat list) \<Rightarrow> csvFile \<Rightarrow>
     state \<Rightarrow> (error + nat \<times> nat) \<times> state" where
  "processCsvFile rt limit tableName fails sched f st0 =
     (case f of File rows ended \<Rightarrow>
        let st1 = st0\<lparr> processedCount := 0, updatedCount := 0, batch := [] \<rparr>;
            st2 = arrive rt fails sched (forAwait rt limit tableName fails sched rows st1)
        in if crashed st2 then (Inl Uncaught, st2)
           else
             (case ended of
                ReadFailure \<Rightarrow> (Inl Uncaught, st2\<lparr> crashed := True \<rparr>)
              | ParserFailure \<Rightarrow> (Inl StreamError, st2)
              | EndOfFile \<Rightarrow>
                  let st3 = (if length (batch st2) > 0 then allSettled fails st2 else st2);
                      st4 = logger INFO (CsvComplete (processedCount st3) (updatedCount st3)) st3
                  in (Inr (updatedCount st4, processedCount st4), st4)))"

text \<open>
  \<open>main\<close> returns the exit code that \<open>main().then((exitCode) => process.exit(exitCode))\<close>
  hands to the process, or 1 when an uncaught exception has ended it. The file system
  maps a path to the file there, if any.
\<close>

definition csvFilePath :: "env \<Rightarrow> string" where
  "csvFilePath e = orDefault (FILE_PATH e) ''./logs-insights-results.csv''"

definition main ::
  "rejections \<Rightarrow> env \<Rightarrow> (string \<Rightarrow> csvFile option) \<Rightarrow> (nat \<Rightarrow> bool) \<Rightarrow> (nat \<Rightarrow> nat list) \<Rightarrow>
     int \<times> state" where
  "main rt e fs fails sched =
     (case fs (csvFilePath e) of
        None \<Rightarrow> (1, logger ERROR (CsvNotFound (csvFilePath e)) initial)
      | Some f \<Rightarrow>
          let st = logger INFO (StartingProcess (TABLE_NAME e) (csvFilePath e)) initial
          in (case processCsvFile rt (CONCURRENCY_LIMIT e) (TABLE_NAME e) fails sched f st of
                (Inl Uncaught, st') \<Rightarrow> (1, st')
              | (Inl StreamError, st') \<Rightarrow> (1, logger ERROR UnhandledException st')
              | (Inr (updated, processed), st') \<Rightarrow>
                  (0, logger INFO ExecutionTime
                       (logger INFO (DevicesInSet (length (processedDevices st')))
                         (logger INFO (TotalUpdated updated)
                           (logger INFO (TotalProcessed processed)
                             (logger INFO ProcessSummary st')))))))"

subsection \<open>Reading the history\<close>

text \<open>
  The store-update tasks outstanding after a history are the requests sent and not
  yet answered; \<open>inflight\<close> follows the history event by event.
\<close>

fun track :: "event \<Rightarrow> nat list \<Rightarrow> nat list" where
  "track (Update n p) ids = ids @ [n]"
| "track (Reply n ok) ids = removeAll n ids"
| "track AllSettled ids = ids"

definition inflight :: "event list \<Rightarrow> nat list" where
  "inflight es = fold track es []"

definition outstanding :: "event list \<Rightarrow> nat" where
  "outstanding es = length (inflight es)"

fun requests :: "event list \<Rightarrow> (nat \<times> updateParams) list" where
  "requests [] = []"
| "requests (Update n p # es) = (n, p) # requests es"
| "requests (Reply n ok # es) = requests es"
| "requests (AllSettled # es) = requests es"

definition started :: "event list \<Rightarrow> nat" where
  "started es = length (requests es)"

text \<open>The device a request is for: its sort key without the \<open>device#\<close> prefix.\<close>

definition deviceId :: "updateParams \<Rightarrow> string" where
  "deviceId p = drop 7 (sk (Key p))"

text \<open>The devices whose update has been answered with success in a history.\<close>

definition succeeded :: "event list \<Rightarrow> string list" where
  "succeeded es =
     map (\<lambda>np. deviceId (snd np)) (filter (\<lambda>np. Reply (fst np) True \<in> set es) (requests es))"

text \<open>A row that passes validation and classification.\<close>

definition classifiable :: "row \<Rightarrow> bool" where
  "classifiable r = (isValidRow r \<and> getOsFromSourceApp (col r ''sourceApp'') \<noteq> None)"

subsection \<open>Concrete inputs\<close>

definition mkRow :: "string \<Rightarrow> string \<Rightarrow> string \<Rightarrow> row" where
  "mkRow suid zid sourceApp = [(''suid'', suid), (''zid'', zid), (''sourceApp'', sourceApp)]"

definition neverFails :: "nat \<Rightarrow> bool" where
  "neverFails n = False"

definition failsAt :: "nat list \<Rightarrow> nat \<Rightarrow> bool" where
  "failsAt ns n = (n \<in> set ns)"

definition noEarlyReplies :: "nat \<Rightarrow> nat list" where
  "noEarlyReplies k = []"

definition repliesAt :: "(nat \<times> nat list) list \<Rightarrow> nat \<Rightarrow> nat list" where
  "repliesAt tbl k = (case map_of tbl k of None \<Rightarrow> [] | Some ns \<Rightarrow> ns)"

definition noFiles :: "string \<Rightarrow> csvFile option" where
  "noFiles path = None"

definition onlyFile :: "string \<Rightarrow> csvFile \<Rightarrow> string \<Rightarrow> csvFile option" where
  "onlyFile name f path = (if path = name then Some f else None)"

definition envWith :: "string option \<Rightarrow> env" where
  "envWith limit = \<lparr> ENV = None, FILE_PATH = None, CONCURRENCY_LIMIT_var = limit \<rparr>"

text \<open>
  The scenario input: three Mac rows, two Windows rows, a row with an unknown source
  application, a row with an empty \<open>suid\<close>, and a row repeating the \<open>zid\<close> of the first.
\<close>

definition scenarioRows :: "row list" where
  "scenarioRows =
     [mkRow ''u1'' ''z1'' ''mac'', mkRow ''u2'' ''z2'' ''Mac'', mkRow ''u3'' ''z3'' ''macOS'',
      mkRow ''u4'' ''z4'' ''windows'', mkRow ''u5'' ''z5'' ''Windows'',
      mkRow ''u6'' ''z6'' ''linux'', mkRow [] ''z7'' ''mac'', mkRow ''u1'' ''z1'' ''mac'']"

subsection \<open>Auxiliary notions for the proofs\<close>

text \<open>The request \<open>updateItemWithOs\<close> hands to the client.\<close>

definition request :: "string \<Rightarrow> string \<Rightarrow> string \<Rightarrow> string \<Rightarrow> updateParams" where
  "request tableName suid zid osValue = updateItemWithOs tableName (\<lambda>p. p) suid zid osValue"

text \<open>
  The promises still pending in the batch are exactly the requests in flight, each
  once, and their numbers are below the call counter.
\<close>

definition structured :: "state \<Rightarrow> bool" where
  "structured st \<longleftrightarrow>
     inflight (trace st) = pendingIds (batch st) \<and>
     distinct (pendingIds (batch st)) \<and>
     (\<forall>n \<in> set (pendingIds (batch st)). n < calls st)"

text \<open>
  The requests sent since the last \<open>await Promise.allSettled\<close> returned (or since the
  start): the requests of the current window.
\<close>

definition recent :: "event list \<Rightarrow> nat" where
  "recent es = started (takeWhile (\<lambda>e. e \<noteq> AllSettled) (rev es))"

text \<open>
  A history respects a window of \<open>w\<close>: no prefix has more than \<open>w\<close> requests in
  flight, none is in flight where an \<open>await Promise.allSettled\<close> returns, and no
  stretch of it without such a return holds more than \<open>w\<close> requests.
\<close>

definition windowed :: "nat \<Rightarrow> event list \<Rightarrow> bool" where
  "windowed w es \<longleftrightarrow>
     (\<forall>k. length (inflight (take k es)) \<le> w) \<and>
     (\<forall>pre post. es = pre @ AllSettled # post \<longrightarrow> inflight pre = []) \<and>
     (\<forall>pre mid post. es = pre @ mid @ post \<and> AllSettled \<notin> set mid \<longrightarrow> started mid \<le> w)"

text \<open>The loop invariant for a window of \<open>w\<close>, at the head of the loop.\<close>

definition fits :: "nat \<Rightarrow> state \<Rightarrow> bool" where
  "fits w st \<longleftrightarrow>
     structured st \<and> windowed w (trace st) \<and> length (batch st) < w \<and>
     recent (trace st) \<le> length (batch st)"

text \<open>The state in which \<open>main\<close> calls \<open>processCsvFile\<close>.\<close>

definition started0 :: "env \<Rightarrow> state" where
  "started0 e = logger INFO (StartingProcess (TABLE_NAME e) (csvFilePath e)) initial"

text \<open>
  What the claim about the limit calls a non-numeric string: a non-empty string that,
  after leading white space and one optional sign, does not begin with a decimal digit
  (such as \<open>abc\<close>). The empty string is not one: it is falsy and the default applies.
\<close>

definition nonNumeric :: "string \<Rightarrow> bool" where
  "nonNumeric s =
     (s \<noteq> [] \<and>
      (let t = dropWhile isWhiteSpace s;
           u = (if take 1 t = ''-'' \<or> take 1 t = ''+'' then drop 1 t else t)
       in case u of [] \<Rightarrow> True | c # cs \<Rightarrow> \<not> isDigit 10 c))"

text \<open>The invariant of a run in which nothing is answered before the flush.\<close>

definition onlyUpdates :: "event list \<Rightarrow> bool" where
  "onlyUpdates es \<longleftrightarrow> (\<forall>e \<in> set es. \<exists>n p. e = Update n p)"

definition flooding :: "state \<Rightarrow> bool" where
  "flooding st \<longleftrightarrow> processedDevices st = [] \<and> onlyUpdates (trace st)"

text \<open>The pending promises of a batch with the device each will mark.\<close>

fun pendings :: "promise list \<Rightarrow> (nat \<times> string) list" where
  "pendings [] = []"
| "pendings (Pending n z # ps) = (n, z) # pendings ps"
| "pendings (Fulfilled b # ps) = pendings ps"
| "pendings (Rejected # ps) = pendings ps"

text \<open>The devices of the requests sent in a history, in order.\<close>

definition requestedDevices :: "event list \<Rightarrow> string list" where
  "requestedDevices es = map (\<lambda>np. deviceId (snd np)) (requests es)"

text \<open>
  The dedup invariant: requests are numbered in call order, replies answer requests
  already sent, the tracker holds exactly the devices whose update has been answered
  with success, and every pending promise waits for a request for its own device.
\<close>

definition tracked :: "state \<Rightarrow> bool" where
  "tracked st \<longleftrightarrow>
     map fst (requests (trace st)) = [0..<calls st] \<and>
     (\<forall>n ok. Reply n ok \<in> set (trace st) \<longrightarrow> n < calls st) \<and>
     set (processedDevices st) = set (succeeded (trace st)) \<and>
     (\<forall>n z. (n, z) \<in> set (pendings (batch st)) \<longrightarrow>
        (\<exists>p. (n, p) \<in> set (requests (trace st)) \<and> deviceId p = z))"

text \<open>
  The state in which a run of \<open>main\<close> reads its next row, having read \<open>rows\<close>: the
  loop has run over \<open>rows\<close> and the replies of the pause before the next row are in.
\<close>

definition atRow ::
  "rejections \<Rightarrow> env \<Rightarrow> (nat \<Rightarrow> bool) \<Rightarrow> (nat \<Rightarrow> nat list) \<Rightarrow> row list \<Rightarrow> state" where
  "atRow rt e fails sched rows =
     arrive rt fails sched
       (forAwait rt (CONCURRENCY_LIMIT e) (TABLE_NAME e) fails sched rows (started0 e))"

text \<open>No request is for a device whose update had already succeeded when it was sent.\<close>

definition neverRepeats :: "event list \<Rightarrow> bool" where
  "neverRepeats es \<longleftrightarrow>
     (\<forall>pre m q post. es = pre @ Update m q # post \<longrightarrow> deviceId q \<notin> set (succeeded pre))"

text \<open>The number of requests among the first \<open>k\<close> that the store answers with success.\<close>

definition successes :: "(nat \<Rightarrow> bool) \<Rightarrow> nat \<Rightarrow> nat" where
  "successes fails k = length (filter (\<lambda>n. \<not> fails n) [0..<k])"

text \<open>
  Every success is counted once: in \<open>updatedCount\<close>, as a fulfilled promise of the
  batch, or as a pending request that will succeed.
\<close>

definition counted :: "(nat \<Rightarrow> bool) \<Rightarrow> state \<Rightarrow> bool" where
  "counted fails st \<longleftrightarrow>
     updatedCount st + countUpdated (batch st) +
       length (filter (\<lambda>n. \<not> fails n) (pendingIds (batch st))) = successes fails (calls st)"

text \<open>Every reply in a history carries the outcome the store gives that request.\<close>

definition honest :: "(nat \<Rightarrow> bool) \<Rightarrow> event list \<Rightarrow> bool" where
  "honest fails es \<longleftrightarrow> (\<forall>n ok. Reply n ok \<in> set es \<longrightarrow> ok = (\<not> fails n))"

text \<open>The state in which \<open>processCsvFile\<close> returns to \<open>main\<close> after a file read to its end.\<close>

definition finished ::
  "rejections \<Rightarrow> env \<Rightarrow> (nat \<Rightarrow> bool) \<Rightarrow> (nat \<Rightarrow> nat list) \<Rightarrow> row list \<Rightarrow> state" where
  "finished rt e fails sched rows =
     snd (processCsvFile rt (CONCURRENCY_LIMIT e) (TABLE_NAME e) fails sched
            (File rows EndOfFile) (started0 e))"

text \<open>The distinct devices of the rows that pass validation and classification.\<close>

definition classifiedDevices :: "row list \<Rightarrow> string list" where
  "classifiedDevices rows = remdups (map (\<lambda>r. col r ''zid'') (filter classifiable rows))"

text \<open>
  The loop invariant of a run that settles every task before the next row is read
  and in which no update fails.
\<close>

definition sequential :: "state \<Rightarrow> bool" where
  "sequential st \<longleftrightarrow>
     batch st = [] \<and>
     set (processedDevices st) = set (requestedDevices (trace st)) \<and>
     distinct (requestedDevices (trace st))"

section \<open>Strings and the classifier\<close>

lemma toLowerChar_capital:
  assumes "(65 \<le> (of_char c :: nat) \<and> (of_char c :: nat) \<le> 90) \<or>
           (192 \<le> (of_char c :: nat) \<and> (of_char c :: nat) \<le> 222 \<and> (of_char c :: nat) \<noteq> 215)"
  shows "of_char (toLowerChar c) = (of_char c :: nat) + 32"
proof (cases c)
  case (Char b0 b1 b2 b3 b4 b5 b6 b7)
  have low: "(of_bool b0 :: nat) + 2 * of_bool b1 + 4 * of_bool b2 + 8 * of_bool b3 + 16 * of_bool b4 \<le> 31"
    by (simp add: of_bool_def)
  have "\<not> b5"
  proof
    assume b5
    with assms Char low show False
      by (cases b6; cases b7) (simp_all add: add.assoc)
  qed
  with assms Char show ?thesis by (simp add: toLowerChar_def Let_def)
qed

lemma toLowerChar_other:
  assumes "\<not> ((65 \<le> (of_char c :: nat) \<and> (of_char c :: nat) \<le> 90) \<or>
           (192 \<le> (of_char c :: nat) \<and> (of_char c :: nat) \<le> 222 \<and> (of_char c :: nat) \<noteq> 215))"
  shows "toLowerChar c = c"
proof -
  have "toLowerChar c = (if (65 \<le> (of_char c :: nat) \<and> (of_char c :: nat) \<le> 90) \<or>
           (192 \<le> (of_char c :: nat) \<and> (of_char c :: nat) \<le> 222 \<and> (of_char c :: nat) \<noteq> 215)
      then (case c of Char b0 b1 b2 b3 b4 b5 b6 b7 \<Rightarrow> Char b0 b1 b2 b3 b4 True b6 b7) else c)"
    unfolding toLowerChar_def Let_def ..
  also have "\<dots> = c" using assms by (rule if_not_P)
  finally show ?thesis .
qed

lemma includesStr_sublist: "includesStr s t = sublist t s"
proof (induction s)
  case Nil
  then show ?case by simp
next
  case (Cons c s)
  then show ?case by (simp add: sublist_Cons_right)
qed

lemma getOsFromSourceApp_sublist:
  "getOsFromSourceApp s =
     (if sublist ''mac'' (toLowerCase s) then Some ''Mac''
      else if sublist ''windows'' (toLowerCase s) then Some ''Windows''
      else None)"
  by (simp add: getOsFromSourceApp_def includesStr_sublist Let_def)

section \<open>Steps of the pipeline\<close>

lemma inflight_snoc: "inflight (es @ [e]) = track e (inflight es)"
  by (simp add: inflight_def)

lemma requests_append: "requests (es @ fs) = requests es @ requests fs"
  by (induction es rule: requests.induct) simp_all

lemma pendingIds_append: "pendingIds (ps @ qs) = pendingIds ps @ pendingIds qs"
  by (induction ps rule: pendingIds.induct) simp_all

lemma awaiting_None: "awaiting n ps = None \<longleftrightarrow> n \<notin> set (pendingIds ps)"
  by (induction n ps rule: awaiting.induct) auto

lemma pendingIds_settleWith:
  "pendingIds [r] = [] \<Longrightarrow> pendingIds (settleWith n r ps) = remove1 n (pendingIds ps)"
proof (induction ps)
  case Nil
  then show ?case by simp
next
  case (Cons q ps)
  have "pendingIds (r # ps) = pendingIds ps"
    using Cons.prems by (cases r) simp_all
  with Cons show ?case by (cases q) simp_all
qed

lemma length_settleWith: "length (settleWith n r ps) = length ps"
  by (induction n r ps rule: settleWith.induct) auto

lemma processRow_cases:
  "processRow T row st =
     (if col row ''zid'' \<in> set (processedDevices st)
      then (Fulfilled False,
            st\<lparr> logs := logs st @
                   [(INFO, Processing (col row ''suid'') (col row ''zid'') (col row ''sourceApp'')),
                    (INFO, SkippingUpdate (col row ''suid'') (col row ''zid''))] \<rparr>)
      else (case getOsFromSourceApp (col row ''sourceApp'') of
              None \<Rightarrow>
                (Fulfilled False,
                 st\<lparr> logs := logs st @
                        [(INFO, Processing (col row ''suid'') (col row ''zid'') (col row ''sourceApp'')),
                         (INFO, NoOsDetected (col row ''suid'') (col row ''zid''))] \<rparr>)
            | Some osValue \<Rightarrow>
                (Pending (calls st) (col row ''zid''),
                 st\<lparr> logs := logs st @
                        [(INFO, Processing (col row ''suid'') (col row ''zid'') (col row ''sourceApp''))],
                     calls := calls st + 1,
                     trace := trace st @
                        [Update (calls st) (request T (col row ''suid'') (col row ''zid'') osValue)] \<rparr>)))"
  by (simp add: processRow_def Let_def logger_def shouldUpdateItem_def updateItemWithOs_def
      docClientUpdate_def request_def split: option.splits)

lemma deliver_cases:
  "deliver fails n st =
     (case awaiting n (batch st) of
        None \<Rightarrow> st
      | Some zid \<Rightarrow>
          st\<lparr> processedDevices :=
                (if fails n then processedDevices st else setAdd zid (processedDevices st)),
              batch := settleWith n (if fails n then Rejected else Fulfilled True) (batch st),
              trace := trace st @ [Reply n (\<not> fails n)] \<rparr>)"
  by (simp add: deliver_def split: option.splits)

lemma calls_deliver [simp]: "calls (deliver fails n st) = calls st"
  by (simp add: deliver_cases split: option.splits)

lemma calls_fold_deliver [simp]: "calls (fold (deliver fails) ns st) = calls st"
  by (induction ns arbitrary: st) simp_all

lemma length_batch_deliver [simp]: "length (batch (deliver fails n st)) = length (batch st)"
  by (simp add: deliver_cases length_settleWith split: option.splits)

lemma length_batch_fold_deliver [simp]:
  "length (batch (fold (deliver fails) ns st)) = length (batch st)"
  by (induction ns arbitrary: st) simp_all

lemma requests_deliver [simp]: "requests (trace (deliver fails n st)) = requests (trace st)"
  by (simp add: deliver_cases requests_append split: option.splits)

lemma requests_fold_deliver [simp]:
  "requests (trace (fold (deliver fails) ns st)) = requests (trace st)"
  by (induction ns arbitrary: st) simp_all

lemma requests_allSettled [simp]: "requests (trace (allSettled fails st)) = requests (trace st)"
  by (simp add: allSettled_def Let_def requests_append)

subsection \<open>The batch and the requests in flight\<close>

lemma structured_deliver: "structured st \<Longrightarrow> structured (deliver fails n st)"
  by (auto simp add: structured_def deliver_cases inflight_snoc pendingIds_settleWith
      distinct_remove1_removeAll distinct_removeAll split: option.splits)

lemma structured_fold_deliver: "structured st \<Longrightarrow> structured (fold (deliver fails) ns st)"
  by (induction ns arbitrary: st) (simp_all add: structured_deliver)

lemma pending_deliver:
  "structured st \<Longrightarrow>
   set (pendingIds (batch (deliver fails n st))) = set (pendingIds (batch st)) - {n}"
  by (auto simp add: structured_def deliver_cases pendingIds_settleWith awaiting_None
      split: option.splits)

lemma pending_fold_deliver:
  "structured st \<Longrightarrow>
   set (pendingIds (batch (fold (deliver fails) ns st))) = set (pendingIds (batch st)) - set ns"
proof (induction ns arbitrary: st)
  case Nil
  then show ?case by simp
next
  case (Cons n ns)
  have "structured (deliver fails n st)" using Cons.prems by (rule structured_deliver)
  from Cons.IH[OF this] pending_deliver[OF Cons.prems, of fails n]
  show ?case by auto
qed

lemma structured_admit:
  assumes "structured st" and "processRow T row st = (p, st')"
  shows "structured (st'\<lparr> batch := batch st' @ [p] \<rparr>)"
  using assms
  by (fastforce simp add: structured_def processRow_cases inflight_snoc pendingIds_append
      split: if_splits option.splits)

lemma settled_all:
  assumes "structured st"
  shows "pendingIds (batch (fold (deliver fails) (pendingIds (batch st)) st)) = []"
  using pending_fold_deliver[OF assms, of fails "pendingIds (batch st)"] by simp

lemma structured_allSettled: "structured st \<Longrightarrow> structured (allSettled fails st)"
  using structured_fold_deliver[of st fails "pendingIds (batch st)"]
  by (simp add: allSettled_def Let_def structured_def inflight_snoc)

lemma pending_allSettled: "structured st \<Longrightarrow> pendingIds (batch (allSettled fails st)) = []"
  by (simp add: allSettled_def Let_def settled_all)

lemma structured_body: "structured st \<Longrightarrow> structured (body limit T fails row st)"
proof -
  assume s: "structured st"
  let ?st1 = "st\<lparr> processedCount := processedCount st + 1 \<rparr>"
  have s1: "structured ?st1" using s by (simp add: structured_def)
  show ?thesis
  proof (cases "isValidRow row")
    case False
    then show ?thesis using s1 by (simp add: body_def Let_def logger_def structured_def)
  next
    case True
    obtain p st2 where pr: "processRow T row ?st1 = (p, st2)" by (cases "processRow T row ?st1")
    let ?st3 = "st2\<lparr> batch := batch st2 @ [p] \<rparr>"
    have s3: "structured ?st3" using structured_admit[OF s1 pr] .
    have s4: "structured ((allSettled fails ?st3)\<lparr> batch := [] \<rparr>)"
      using structured_allSettled[OF s3, of fails] pending_allSettled[OF s3, of fails]
      by (simp add: structured_def)
    show ?thesis using True pr s3 s4
      by (simp add: body_def Let_def logger_def structured_def)
  qed
qed

subsection \<open>Replies between rows, and the loop\<close>

lemma crashed_deliver [simp]: "crashed (deliver fails n st) = crashed st"
  by (simp add: deliver_cases split: option.splits)

lemma crashed_fold_deliver [simp]: "crashed (fold (deliver fails) ns st) = crashed st"
  by (induction ns arbitrary: st) simp_all

lemma crashed_allSettled [simp]: "crashed (allSettled fails st) = crashed st"
  by (simp add: allSettled_def Let_def)

lemma crashed_body [simp]: "crashed (body limit T fails row st) = crashed st"
  by (simp add: body_def Let_def logger_def processRow_cases split: option.splits)

text \<open>
  A property of states that every reply keeps, and that does not depend on whether
  the process has ended, is kept by the pauses between rows; if the loop body keeps it
  too, the loop keeps it.
\<close>

lemma arriving_preserves:
  assumes "\<And>n st. P st \<Longrightarrow> P (deliver fails n st)"
    and "\<And>st. P st \<Longrightarrow> P (st\<lparr> crashed := True \<rparr>)"
    and "P st"
  shows "P (arriving rt fails ns st)"
  using assms(3)
proof (induction ns arbitrary: st)
  case Nil
  then show ?case by simp
next
  case (Cons n ns)
  have "P (deliver fails n st)" using Cons.prems by (rule assms(1))
  then show ?case using Cons.IH assms(2) by simp
qed

lemma arrive_preserves:
  assumes "\<And>n st. P st \<Longrightarrow> P (deliver fails n st)"
    and "\<And>st. P st \<Longrightarrow> P (st\<lparr> crashed := True \<rparr>)"
    and "P st"
  shows "P (arrive rt fails sched st)"
  using arriving_preserves[of P fails st rt "sched (processedCount st)", OF assms] assms(3)
  by (simp add: arrive_def)

lemma forAwait_preserves:
  assumes "\<And>st. P st \<Longrightarrow> P (arrive rt fails sched st)"
    and "\<And>row st. P st \<Longrightarrow> P (body limit T fails row st)"
    and "P st"
  shows "P (forAwait rt limit T fails sched rows st)"
  using assms(3)
proof (induction rows arbitrary: st)
  case Nil
  then show ?case by simp
next
  case (Cons row rows)
  have a: "P (arrive rt fails sched st)" using Cons.prems by (rule assms(1))
  then have "P (body limit T fails row (arrive rt fails sched st))" by (rule assms(2))
  then show ?case using a Cons.IH by (simp add: Let_def)
qed

text \<open>Under \<open>Warning\<close> the pause delivers its replies and nothing else happens.\<close>

lemma arriving_Warning: "arriving Warning fails ns st = fold (deliver fails) ns st"
  by (induction ns arbitrary: st) simp_all

lemma arriving_idle: "batch st = [] \<Longrightarrow> arriving rt fails ns st = st"
  by (induction ns) (simp_all add: deliver_def)

lemma crashed_arriving_neverFails [simp]: "crashed (arriving rt neverFails ns st) = crashed st"
  by (induction ns arbitrary: st) (simp_all add: neverFails_def)

lemma structured_crashed [simp]: "structured (st\<lparr> crashed := b \<rparr>) = structured st"
  by (simp add: structured_def)

lemma structured_arrive: "structured st \<Longrightarrow> structured (arrive rt fails sched st)"
  by (rule arrive_preserves) (simp_all add: structured_deliver)

lemma structured_forAwait:
  "structured st \<Longrightarrow> structured (forAwait rt limit T fails sched rows st)"
  by (rule forAwait_preserves) (simp_all add: structured_arrive structured_body)

subsection \<open>Logging\<close>

lemma trace_logger [simp]: "trace (logger l m st) = trace st"
  by (simp add: logger_def)

lemma logs_logger [simp]: "logs (logger l m st) = logs st @ [(l, m)]"
  by (simp add: logger_def)

lemma body_no_os:
  assumes "getOsFromSourceApp (col row ''sourceApp'') = None"
  shows "requests (trace (body limit T fails row st)) = requests (trace st)"
  using assms
  by (simp add: body_def Let_def logger_def processRow_cases split: prod.splits)

lemma logs_deliver [simp]: "logs (deliver fails n st) = logs st"
  by (simp add: deliver_cases split: option.splits)

lemma logs_fold_deliver [simp]: "logs (fold (deliver fails) ns st) = logs st"
  by (induction ns arbitrary: st) simp_all

lemma logs_allSettled [simp]: "logs (allSettled fails st) = logs st"
  by (simp add: allSettled_def Let_def)

lemma logs_arrive [simp]: "logs (arrive rt fails sched st) = logs st"
proof -
  have "logs (arrive rt fails sched st) = logs st \<and> True"
    by (rule arrive_preserves[where P = "\<lambda>s. logs s = logs st \<and> True"]) simp_all
  then show ?thesis by simp
qed

lemma no_summary_body:
  assumes "(INFO, ProcessSummary) \<notin> set (logs st)"
  shows "(INFO, ProcessSummary) \<notin> set (logs (body limit T fails row st))"
  using assms
  by (simp add: body_def Let_def processRow_cases updateItemWithOs_def docClientUpdate_def
      split: option.splits)

lemma no_summary_forAwait:
  assumes "(INFO, ProcessSummary) \<notin> set (logs st)"
  shows "(INFO, ProcessSummary) \<notin> set (logs (forAwait rt limit T fails sched rows st))"
  using assms
  by (rule forAwait_preserves[where P = "\<lambda>s. (INFO, ProcessSummary) \<notin> set (logs s)", rotated 2])
    (simp_all add: no_summary_body)

section \<open>The classifier and the executor\<close>

text \<open>
  Claim C6. For every input string, the OS classifier returns \<open>Mac\<close> if the lowercased
  string contains \<open>mac\<close>, otherwise \<open>Windows\<close> if it contains \<open>windows\<close>, otherwise
  nothing; when both substrings are present the result is \<open>Mac\<close>. A row classified as
  nothing causes no store call: \<open>processRow\<close> returns \<open>{ updated: false }\<close> at once, the
  loop body adds no request to the history, and (the device not being in the tracker)
  the log says that no OS was detected.
\<close>

theorem os_classifier_rules:
  "getOsFromSourceApp s =
     (if sublist ''mac'' (toLowerCase s) then Some ''Mac''
      else if sublist ''windows'' (toLowerCase s) then Some ''Windows''
      else None) \<and>
   (sublist ''mac'' (toLowerCase s) \<and> sublist ''windows'' (toLowerCase s) \<longrightarrow>
      getOsFromSourceApp s = Some ''Mac'') \<and>
   (getOsFromSourceApp (col row ''sourceApp'') = None \<longrightarrow>
      fst (processRow T row st) = Fulfilled False \<and>
      trace (snd (processRow T row st)) = trace st \<and>
      requests (trace (body limit T fails row st)) = requests (trace st)) \<and>
   (getOsFromSourceApp (col row ''sourceApp'') = None \<and>
    shouldUpdateItem (processedDevices st) (col row ''zid'') \<longrightarrow>
      logs (snd (processRow T row st)) =
        logs st @
          [(INFO, Processing (col row ''suid'') (col row ''zid'') (col row ''sourceApp'')),
           (INFO, NoOsDetected (col row ''suid'') (col row ''zid''))])"
  by (simp add: getOsFromSourceApp_sublist[symmetric] body_no_os processRow_cases shouldUpdateItem_def)
    (simp add: getOsFromSourceApp_sublist)

theorem os_classifier_rules_witness:
  "sublist ''mac'' (toLowerCase ''Windows VM on a MacBook'') \<and>
   sublist ''windows'' (toLowerCase ''Windows VM on a MacBook'') \<and>
   getOsFromSourceApp ''Windows VM on a MacBook'' = Some ''Mac'' \<and>
   getOsFromSourceApp (col (mkRow ''u6'' ''z6'' ''linux'') ''sourceApp'') = None \<and>
   shouldUpdateItem (processedDevices initial) (col (mkRow ''u6'' ''z6'' ''linux'') ''zid'') \<and>
   requests (trace (body (Num 20) ''qa-user'' neverFails (mkRow ''u6'' ''z6'' ''linux'') initial)) = [] \<and>
   logs (snd (processRow ''qa-user'' (mkRow ''u6'' ''z6'' ''linux'') initial)) =
     [(INFO, Processing ''u6'' ''z6'' ''linux''), (INFO, NoOsDetected ''u6'' ''z6'')]"
proof -
  have h1: "sublist ''mac'' (toLowerCase ''Windows VM on a MacBook'') \<and>
            sublist ''windows'' (toLowerCase ''Windows VM on a MacBook'')"
    by (simp add: includesStr_sublist[symmetric] toLowerCase_def toLowerChar_def)
  have h2: "getOsFromSourceApp (col (mkRow ''u6'' ''z6'' ''linux'') ''sourceApp'') = None"
    by (simp add: getOsFromSourceApp_def mkRow_def col_def toLowerCase_def toLowerChar_def)
  have h3: "shouldUpdateItem (processedDevices initial) (col (mkRow ''u6'' ''z6'' ''linux'') ''zid'')"
    by (simp add: shouldUpdateItem_def initial_def)
  have c: "col (mkRow ''u6'' ''z6'' ''linux'') ''suid'' = ''u6'' \<and>
           col (mkRow ''u6'' ''z6'' ''linux'') ''zid'' = ''z6'' \<and>
           col (mkRow ''u6'' ''z6'' ''linux'') ''sourceApp'' = ''linux''"
    by (simp add: mkRow_def col_def)
  show ?thesis
    using os_classifier_rules[of "''Windows VM on a MacBook''" "mkRow ''u6'' ''z6'' ''linux''"
        "''qa-user''" initial "Num 20" neverFails] h1 h2 h3 c
    by (simp add: initial_def)
qed

text \<open>
  Claim C7. For every \<open>suid\<close>, \<open>zid\<close> and OS tag, the executor makes exactly one call of
  the client, with no condition, keyed by partition key \<open>suid\<close> and sort key
  \<open>device#\<close> followed by \<open>zid\<close>; on the store it sets \<open>name\<close> to
  \<open>Desktop Agent (<tag>)\<close> and \<open>os\<close> to the lowercased tag and leaves every other
  attribute, item and table as it was. The tags \<open>Mac\<close> and \<open>Windows\<close> are stored as
  \<open>mac\<close> and \<open>windows\<close>.
\<close>

theorem store_update_request:
  "updateItemWithOs T recordCall suid zid osValue [] =
     [\<lparr> TableName = T, Key = \<lparr> pk = suid, sk = ''device#'' @ zid \<rparr>,
        UpdateExpression = SET [(''#name'', '':name''), (''#os'', '':os'')],
        ExpressionAttributeNames = [(''#name'', ''name''), (''#os'', ''os'')],
        ExpressionAttributeValues =
          [('':name'', ''Desktop Agent ('' @ osValue @ '')''), ('':os'', toLowerCase osValue)],
        ConditionExpression = None \<rparr>] \<and>
   updateItemWithOs T (storeUpdate upsert) suid zid osValue s =
     (case s T \<lparr> pk = suid, sk = ''device#'' @ zid \<rparr> of
        None \<Rightarrow>
          if upsert
          then Some (s(T := (s T)(\<lparr> pk = suid, sk = ''device#'' @ zid \<rparr> \<mapsto>
                 [''name'' \<mapsto> ''Desktop Agent ('' @ osValue @ '')'', ''os'' \<mapsto> toLowerCase osValue])))
          else Some s
      | Some it \<Rightarrow>
          Some (s(T := (s T)(\<lparr> pk = suid, sk = ''device#'' @ zid \<rparr> \<mapsto>
                 it(''name'' \<mapsto> ''Desktop Agent ('' @ osValue @ '')'', ''os'' \<mapsto> toLowerCase osValue))))) \<and>
   toLowerCase ''Mac'' = ''mac'' \<and> toLowerCase ''Windows'' = ''windows''"
  by (simp add: updateItemWithOs_def recordCall_def storeUpdate_def toLowerCase_def toLowerChar_def
      split: option.splits)

text \<open>
  Claim C8. For every \<open>suid\<close>, \<open>zid\<close>, OS tag and initial store, the executor's update
  is accepted, and applying it a second time with the same arguments gives the store
  that applying it once gives.
\<close>

theorem store_update_idempotent:
  "(\<exists>s'. updateItemWithOs T (storeUpdate upsert) suid zid osValue s = Some s') \<and>
   Option.bind (updateItemWithOs T (storeUpdate upsert) suid zid osValue s)
       (updateItemWithOs T (storeUpdate upsert) suid zid osValue)
     = updateItemWithOs T (storeUpdate upsert) suid zid osValue s"
  by (auto simp add: updateItemWithOs_def storeUpdate_def split: option.splits)

section \<open>Termination of the process\<close>

lemma crashed_logger [simp]: "crashed (logger l m st) = crashed st"
  by (simp add: logger_def)

lemma started0_fields [simp]:
  "trace (started0 e) = []" "processedDevices (started0 e) = []" "calls (started0 e) = 0"
  "batch (started0 e) = []" "processedCount (started0 e) = 0" "updatedCount (started0 e) = 0"
  by (simp_all add: started0_def initial_def logger_def)

lemma started0_reset [simp]:
  "(started0 e)\<lparr> processedCount := 0, updatedCount := 0, batch := [] \<rparr> = started0 e"
  by (simp add: started0_def initial_def logger_def)

lemma crashed_started0 [simp]: "\<not> crashed (started0 e)"
  by (simp add: started0_def initial_def)

text \<open>
  The exit code of a run over a file that exists: 0 exactly when the file is read to
  its end and no uncaught exception has ended the process; then the summary is
  printed, and otherwise it is not.
\<close>

lemma main_exit:
  assumes "fs (csvFilePath e) = Some (File rows ended)"
  shows "fst (main rt e fs fails sched) =
           (if ended = EndOfFile \<and> \<not> crashed (atRow rt e fails sched rows) then 0 else 1)"
  using assms
  by (cases ended)
    (simp_all add: main_def processCsvFile_def atRow_def started0_def[symmetric] Let_def)

lemma no_summary_atRow: "(INFO, ProcessSummary) \<notin> set (logs (atRow rt e fails sched rows))"
  by (simp add: atRow_def no_summary_forAwait started0_def initial_def)

lemma main_summary:
  assumes "fs (csvFilePath e) = Some (File rows ended)"
  shows "(INFO, ProcessSummary) \<in> set (logs (snd (main rt e fs fails sched))) \<longleftrightarrow>
           fst (main rt e fs fails sched) = 0"
  using assms no_summary_atRow[of rt e fails sched rows]
  by (cases ended)
    (auto simp add: main_def processCsvFile_def atRow_def started0_def[symmetric] Let_def)

lemma main_missing:
  assumes "fs (csvFilePath e) = None"
  shows "main rt e fs fails sched = (1, logger ERROR (CsvNotFound (csvFilePath e)) initial)"
  using assms by (simp add: main_def)


section \<open>The window bound\<close>

subsection \<open>Requests of the current window\<close>

lemma requests_rev: "requests (rev es) = rev (requests es)"
  by (induction es rule: requests.induct) (simp_all add: requests_append)

lemma started_append: "started (es @ fs) = started es + started fs"
  by (simp add: started_def requests_append)

lemma started_rev: "started (rev es) = started es"
  by (simp add: started_def requests_rev)

lemma recent_Nil [simp]: "recent [] = 0"
  by (simp add: recent_def started_def)

lemma recent_Reply [simp]: "recent (es @ [Reply n ok]) = recent es"
  by (simp add: recent_def started_def)

lemma recent_Update [simp]: "recent (es @ [Update n p]) = recent es + 1"
  by (simp add: recent_def started_def)

lemma recent_AllSettled [simp]: "recent (es @ [AllSettled]) = 0"
  by (simp add: recent_def started_def)

text \<open>A stretch at the end of a history without \<open>AllSettled\<close> belongs to the current window.\<close>

lemma stretch_recent:
  assumes "AllSettled \<notin> set mid"
  shows "started mid \<le> recent (pre @ mid)"
proof -
  have "takeWhile (\<lambda>e. e \<noteq> AllSettled) (rev mid @ rev pre) =
          rev mid @ takeWhile (\<lambda>e. e \<noteq> AllSettled) (rev pre)"
    using assms by (intro takeWhile_append2) auto
  then show ?thesis by (simp add: recent_def started_append started_rev)
qed

lemma windowed_Nil: "windowed w []"
  by (simp add: windowed_def inflight_def started_def)

lemma windowed_now: "windowed w es \<Longrightarrow> length (inflight es) \<le> w"
  unfolding windowed_def using take_all[of es "length es"] by (metis order_refl)

lemma windowed_recent:
  assumes "windowed w es"
  shows "recent es \<le> w"
proof -
  let ?P = "\<lambda>e. e \<noteq> AllSettled"
  let ?mid = "rev (takeWhile ?P (rev es))"
  have "rev (takeWhile ?P (rev es) @ dropWhile ?P (rev es)) = rev (rev es)"
    by (simp only: takeWhile_dropWhile_id)
  then have eq: "es = rev (dropWhile ?P (rev es)) @ ?mid @ []"
    by (simp only: rev_append rev_rev_ident append_Nil2)
  have "AllSettled \<notin> set ?mid" using set_takeWhileD[of AllSettled ?P "rev es"] by auto
  with assms eq have "started ?mid \<le> w" unfolding windowed_def by blast
  then show ?thesis by (simp add: recent_def started_rev)
qed

lemma windowed_snoc:
  assumes "windowed w es"
    and "length (track e (inflight es)) \<le> w"
    and "e = AllSettled \<Longrightarrow> inflight es = []"
    and "recent (es @ [e]) \<le> w"
  shows "windowed w (es @ [e])"
proof -
  have a: "length (inflight (take k (es @ [e]))) \<le> w" for k
  proof (cases "k \<le> length es")
    case True
    then show ?thesis using assms(1) by (simp add: windowed_def)
  next
    case False
    then show ?thesis using assms(2) by (simp add: inflight_snoc)
  qed
  have b: "inflight pre = []" if eq: "es @ [e] = pre @ AllSettled # post" for pre post
  proof (cases post rule: rev_cases)
    case Nil
    with eq have "pre = es" "e = AllSettled" by simp_all
    then show ?thesis using assms(3) by simp
  next
    case (snoc post' x)
    with eq have "es = pre @ AllSettled # post'" by simp
    then show ?thesis using assms(1) by (simp add: windowed_def)
  qed
  have c: "started mid \<le> w"
    if eq: "es @ [e] = pre @ mid @ post" and free: "AllSettled \<notin> set mid" for pre mid post
  proof (cases post rule: rev_cases)
    case Nil
    with eq have "es @ [e] = pre @ mid" by simp
    then have "started mid \<le> recent (es @ [e])" using stretch_recent[OF free, of pre] by simp
    then show ?thesis using assms(4) by simp
  next
    case (snoc post' x)
    with eq have "es = pre @ mid @ post'" by simp
    then show ?thesis using assms(1) free unfolding windowed_def by blast
  qed
  show ?thesis unfolding windowed_def using a b c by blast
qed

lemma windowed_Reply: "windowed w es \<Longrightarrow> windowed w (es @ [Reply n ok])"
proof (rule windowed_snoc)
  assume a: "windowed w es"
  show "length (track (Reply n ok) (inflight es)) \<le> w"
    using windowed_now[OF a] length_removeAll_less_eq[of n "inflight es"]
    by (simp del: length_removeAll_less_eq)
  show "recent (es @ [Reply n ok]) \<le> w" using windowed_recent[OF a] by simp
qed simp_all

lemma windowed_Update:
  "windowed w es \<Longrightarrow> length (inflight es) < w \<Longrightarrow> recent es < w \<Longrightarrow>
   windowed w (es @ [Update n p])"
  by (rule windowed_snoc) simp_all

lemma windowed_AllSettled:
  "windowed w es \<Longrightarrow> inflight es = [] \<Longrightarrow> windowed w (es @ [AllSettled])"
  by (rule windowed_snoc) simp_all

subsection \<open>The loop keeps the window\<close>

lemma length_pendingIds: "length (pendingIds ps) \<le> length ps"
  by (induction ps rule: pendingIds.induct) simp_all

lemma trace_deliver_windowed:
  assumes "windowed w (trace st)"
  shows "windowed w (trace (deliver fails n st))"
proof (cases "awaiting n (batch st)")
  case None
  then show ?thesis using assms by (simp add: deliver_cases)
next
  case (Some z)
  then show ?thesis using assms by (simp add: deliver_cases windowed_Reply)
qed

lemma recent_deliver [simp]: "recent (trace (deliver fails n st)) = recent (trace st)"
  by (simp add: deliver_cases split: option.splits)

lemma windowed_fold_deliver:
  "windowed w (trace st) \<Longrightarrow> windowed w (trace (fold (deliver fails) ns st))"
  by (induction ns arbitrary: st) (simp_all add: trace_deliver_windowed)

lemma windowed_allSettled:
  assumes "structured st" and "windowed w (trace st)"
  shows "windowed w (trace (allSettled fails st))"
proof -
  let ?st' = "fold (deliver fails) (pendingIds (batch st)) st"
  have s: "structured ?st'" using assms(1) by (rule structured_fold_deliver)
  have e: "inflight (trace ?st') = []"
    using s settled_all[OF assms(1), of fails] by (simp add: structured_def)
  have "windowed w (trace ?st')" using assms(2) by (rule windowed_fold_deliver)
  then have "windowed w (trace ?st' @ [AllSettled])"
    using e by (simp add: windowed_AllSettled)
  then show ?thesis by (simp add: allSettled_def Let_def)
qed

lemma recent_allSettled [simp]: "recent (trace (allSettled fails st)) = 0"
  by (simp add: allSettled_def Let_def)

lemma fits_deliver: "fits w st \<Longrightarrow> fits w (deliver fails n st)"
  by (simp add: fits_def structured_deliver trace_deliver_windowed)

lemma fits_arrive: "fits w st \<Longrightarrow> fits w (arrive rt fails sched st)"
  by (rule arrive_preserves) (simp_all add: fits_deliver, simp add: fits_def)

lemma windowed_admit:
  assumes "fits w st" and "processRow T row st = (p, st')"
  shows "windowed w (trace st')" and "recent (trace st') \<le> length (batch st) + 1"
proof -
  have "length (inflight (trace st)) < w"
    using assms(1) length_pendingIds[of "batch st"] by (simp add: fits_def structured_def)
  moreover have "recent (trace st) < w" using assms(1) by (simp add: fits_def)
  ultimately show "windowed w (trace st')" using assms
    by (auto simp add: fits_def processRow_cases windowed_Update split: if_splits option.splits)
  show "recent (trace st') \<le> length (batch st) + 1" using assms
    by (auto simp add: fits_def processRow_cases split: if_splits option.splits)
qed

lemma length_batch_processRow:
  "processRow T row st = (p, st') \<Longrightarrow> batch st' = batch st"
  by (auto simp add: processRow_cases split: if_splits option.splits)

lemma fits_body:
  assumes "fits w st" and "0 < w"
  shows "fits w (body (Num (int w)) T fails row st)"
proof -
  let ?st1 = "st\<lparr> processedCount := processedCount st + 1 \<rparr>"
  have f1: "fits w ?st1" using assms(1) by (simp add: fits_def structured_def)
  show ?thesis
  proof (cases "isValidRow row")
    case False
    then show ?thesis using f1 by (simp add: body_def Let_def logger_def fits_def structured_def)
  next
    case True
    obtain p st2 where pr: "processRow T row ?st1 = (p, st2)" by (cases "processRow T row ?st1")
    let ?st3 = "st2\<lparr> batch := batch st2 @ [p] \<rparr>"
    have s3: "structured ?st3" using structured_admit[OF _ pr] f1 by (simp add: fits_def)
    have w3: "windowed w (trace ?st3)" using windowed_admit(1)[OF f1 pr] by simp
    have l3: "length (batch ?st3) = length (batch st) + 1"
      using length_batch_processRow[OF pr] by simp
    have r3: "recent (trace ?st3) \<le> length (batch ?st3)"
      using windowed_admit(2)[OF f1 pr] l3 by simp
    have s4: "fits w ((allSettled fails ?st3)\<lparr> batch := [] \<rparr>)"
      using structured_allSettled[OF s3, of fails] pending_allSettled[OF s3, of fails]
        windowed_allSettled[OF s3 w3, of fails] assms(2)
      by (simp add: fits_def structured_def)
    have s5: "\<not> length (batch st) + 1 \<ge> w \<Longrightarrow> fits w ?st3"
      using s3 w3 l3 r3 by (simp add: fits_def)
    show ?thesis using True pr s4 s5 l3
      by (simp add: body_def Let_def logger_def fits_def structured_def)
  qed
qed

lemma fits_forAwait:
  "fits w st \<Longrightarrow> 0 < w \<Longrightarrow> fits w (forAwait rt (Num (int w)) T fails sched rows st)"
  by (rule forAwait_preserves[where P = "fits w", rotated 2]) (simp_all add: fits_body fits_arrive)

lemma default_limit: "CONCURRENCY_LIMIT_var e = None \<Longrightarrow> CONCURRENCY_LIMIT e = Num 20"
proof -
  have "parseInt ''20'' = Num 20" by code_simp
  then show "CONCURRENCY_LIMIT_var e = None \<Longrightarrow> CONCURRENCY_LIMIT e = Num 20"
    by (simp add: CONCURRENCY_LIMIT_def orDefault_def)
qed

subsection \<open>The history of a run\<close>

text \<open>
  What \<open>processCsvFile\<close> returns when \<open>main\<close> calls it, in terms of the state in which
  the loop has ended.
\<close>

lemma processCsvFile_started0:
  "processCsvFile rt (CONCURRENCY_LIMIT e) (TABLE_NAME e) fails sched (File rows ended) (started0 e) =
     (let st2 = atRow rt e fails sched rows
      in if crashed st2 then (Inl Uncaught, st2)
         else
           (case ended of
              ReadFailure \<Rightarrow> (Inl Uncaught, st2\<lparr> crashed := True \<rparr>)
            | ParserFailure \<Rightarrow> (Inl StreamError, st2)
            | EndOfFile \<Rightarrow>
                let st3 = (if length (batch st2) > 0 then allSettled fails st2 else st2);
                    st4 = logger INFO (CsvComplete (processedCount st3) (updatedCount st3)) st3
                in (Inr (updatedCount st4, processedCount st4), st4)))"
  by (simp add: processCsvFile_def atRow_def)

lemma main_trace:
  "fs (csvFilePath e) = Some f \<Longrightarrow>
   trace (snd (main rt e fs fails sched)) =
     trace (snd (processCsvFile rt (CONCURRENCY_LIMIT e) (TABLE_NAME e) fails sched f (started0 e)))"
  by (simp add: main_def Let_def started0_def split: prod.splits sum.splits error.splits)

text \<open>
  The history of a run is that of the state in which the loop has ended, followed by
  the final flush if the file was read to its end with a batch left over.
\<close>

lemma main_trace_cases:
  assumes "fs (csvFilePath e) = Some (File rows ended)"
  shows "trace (snd (main rt e fs fails sched)) =
           (if fst (main rt e fs fails sched) = 0 \<and> length (batch (atRow rt e fails sched rows)) > 0
            then trace (allSettled fails (atRow rt e fails sched rows))
            else trace (atRow rt e fails sched rows))"
  using main_exit[where fs = fs and e = e, OF assms, of rt fails sched]
  unfolding main_trace[of fs e "File rows ended" rt fails sched, OF assms] processCsvFile_started0
  by (cases ended) (simp_all add: Let_def)

lemma structured_started0: "structured (started0 e)"
  by (simp add: structured_def inflight_def)

lemma fits_started0: "0 < w \<Longrightarrow> fits w (started0 e)"
  by (simp add: fits_def structured_started0 windowed_Nil)

lemma fits_atRow:
  assumes "CONCURRENCY_LIMIT e = Num (int w)" and "0 < w"
  shows "fits w (atRow rt e fails sched rows)"
  unfolding atRow_def assms(1)
  by (intro fits_arrive fits_forAwait fits_started0 assms(2))

lemma inflight_settled:
  assumes "structured st"
  shows "inflight (trace (if length (batch st) > 0 then allSettled fails st else st)) = []"
proof (cases "length (batch st) > 0")
  case True
  then show ?thesis
    using structured_allSettled[OF assms, of fails] pending_allSettled[OF assms, of fails]
    by (simp add: structured_def)
next
  case False
  then show ?thesis using assms by (simp add: structured_def)
qed

lemma main_windowed:
  assumes "fs (csvFilePath e) = Some (File rows ended)"
    and "CONCURRENCY_LIMIT e = Num (int w)" and "0 < w"
  shows "windowed w (trace (snd (main rt e fs fails sched)))"
proof -
  have f: "fits w (atRow rt e fails sched rows)" using assms(2,3) by (rule fits_atRow)
  then have s: "structured (atRow rt e fails sched rows)"
    and w: "windowed w (trace (atRow rt e fails sched rows))" by (simp_all add: fits_def)
  show ?thesis
    unfolding main_trace_cases[where fs = fs and e = e, OF assms(1)]
    using w windowed_allSettled[OF s w, of fails] by simp
qed

text \<open>When the run ends with exit code 0, the final flush has left nothing in flight.\<close>

lemma main_settled:
  assumes "fs (csvFilePath e) = Some (File rows ended)"
    and "fst (main rt e fs fails sched) = 0"
  shows "inflight (trace (snd (main rt e fs fails sched))) = []"
proof -
  have "structured (atRow rt e fails sched rows)"
    unfolding atRow_def by (intro structured_arrive structured_forAwait structured_started0)
  from inflight_settled[OF this, of fails] show ?thesis
    unfolding main_trace_cases[where fs = fs and e = e, OF assms(1)]
    using assms(2) by (simp split: if_splits)
qed

text \<open>
  Claim C3, as the code has it. The claim holds for every window size of at least 1,
  the default of 20 (taken when the variable is not set) included; a limit of 0 or
  below still lets one task out at a time (see the counterexample).
  For every input file, every schedule of replies, every set of failing requests,
  either policy of the runtime and every limit \<open>w \<ge> 1\<close>: no prefix of the history has
  more than \<open>w\<close> store-update tasks outstanding; where an \<open>await Promise.allSettled\<close>
  returns, no task started before it is outstanding; every stretch of the history
  without such a return holds at most \<open>w\<close> requests, so the tasks started between two
  returns are one window of at most \<open>w\<close>, and no task of the next window starts before
  every task of this one has settled; and when the run reaches the end of the stream
  (exit code 0) the final flush leaves nothing outstanding.
\<close>

theorem window_bound:
  assumes "fs (csvFilePath e) = Some (File rows ended)"
    and "CONCURRENCY_LIMIT e = Num w" and "1 \<le> w"
  shows "outstanding (take k (trace (snd (main rt e fs fails sched)))) \<le> nat w \<and>
         (trace (snd (main rt e fs fails sched)) = pre @ AllSettled # post \<longrightarrow> outstanding pre = 0) \<and>
         (trace (snd (main rt e fs fails sched)) = pre' @ mid @ post' \<and> AllSettled \<notin> set mid \<longrightarrow>
            started mid \<le> nat w) \<and>
         (fst (main rt e fs fails sched) = 0 \<longrightarrow>
            outstanding (trace (snd (main rt e fs fails sched))) = 0) \<and>
         (CONCURRENCY_LIMIT_var e' = None \<longrightarrow> CONCURRENCY_LIMIT e' = Num 20)"
proof -
  have w: "0 < nat w" "CONCURRENCY_LIMIT e = Num (int (nat w))" using assms(2,3) by simp_all
  have wd: "windowed (nat w) (trace (snd (main rt e fs fails sched)))"
    using assms(1) w(2) w(1) by (rule main_windowed)
  have a: "outstanding (take k (trace (snd (main rt e fs fails sched)))) \<le> nat w"
    using wd by (simp add: windowed_def outstanding_def)
  have b: "trace (snd (main rt e fs fails sched)) = pre @ AllSettled # post \<longrightarrow> outstanding pre = 0"
    using wd unfolding windowed_def outstanding_def by auto
  have c: "trace (snd (main rt e fs fails sched)) = pre' @ mid @ post' \<and> AllSettled \<notin> set mid \<longrightarrow>
            started mid \<le> nat w"
    using wd unfolding windowed_def by blast
  have d: "fst (main rt e fs fails sched) = 0 \<longrightarrow>
            outstanding (trace (snd (main rt e fs fails sched))) = 0"
    using main_settled[where fs = fs and e = e, OF assms(1), of rt fails sched]
    by (simp add: outstanding_def)
  show ?thesis using a b c d by (simp add: default_limit)
qed

theorem window_bound_witness:
  "onlyFile ''./logs-insights-results.csv'' (File scenarioRows EndOfFile) (csvFilePath (envWith (Some ''2''))) =
     Some (File scenarioRows EndOfFile) \<and>
   CONCURRENCY_LIMIT (envWith (Some ''2'')) = Num 2 \<and> (1::int) \<le> 2 \<and>
   outstanding (take 2 (trace (snd (main Fatal (envWith (Some ''2''))
      (onlyFile ''./logs-insights-results.csv'' (File scenarioRows EndOfFile)) neverFails noEarlyReplies)))) = 2 \<and>
   outstanding (take 5 (trace (snd (main Fatal (envWith (Some ''2''))
      (onlyFile ''./logs-insights-results.csv'' (File scenarioRows EndOfFile)) neverFails noEarlyReplies)))) \<le> nat 2 \<and>
   take 5 (trace (snd (main Fatal (envWith (Some ''2''))
      (onlyFile ''./logs-insights-results.csv'' (File scenarioRows EndOfFile)) neverFails noEarlyReplies))) ! 4 = AllSettled \<and>
   outstanding (take 4 (trace (snd (main Fatal (envWith (Some ''2''))
      (onlyFile ''./logs-insights-results.csv'' (File scenarioRows EndOfFile)) neverFails noEarlyReplies)))) = 0 \<and>
   AllSettled \<notin> set (take 4 (trace (snd (main Fatal (envWith (Some ''2''))
      (onlyFile ''./logs-insights-results.csv'' (File scenarioRows EndOfFile)) neverFails noEarlyReplies)))) \<and>
   started (take 4 (trace (snd (main Fatal (envWith (Some ''2''))
      (onlyFile ''./logs-insights-results.csv'' (File scenarioRows EndOfFile)) neverFails noEarlyReplies)))) = 2 \<and>
   fst (main Fatal (envWith (Some ''2''))
      (onlyFile ''./logs-insights-results.csv'' (File scenarioRows EndOfFile)) neverFails noEarlyReplies) = 0 \<and>
   outstanding (trace (snd (main Fatal (envWith (Some ''2''))
      (onlyFile ''./logs-insights-results.csv'' (File scenarioRows EndOfFile)) neverFails noEarlyReplies))) = 0 \<and>
   CONCURRENCY_LIMIT_var (envWith None) = None \<and> CONCURRENCY_LIMIT (envWith None) = Num 20"
proof -
  let ?e = "envWith (Some ''2'')"
  let ?fs = "onlyFile ''./logs-insights-results.csv'' (File scenarioRows EndOfFile)"
  let ?tr = "trace (snd (main Fatal ?e ?fs neverFails noEarlyReplies))"
  have h1: "?fs (csvFilePath ?e) = Some (File scenarioRows EndOfFile)"
    by (simp add: onlyFile_def csvFilePath_def envWith_def orDefault_def)
  have h2: "CONCURRENCY_LIMIT ?e = Num 2" by code_simp
  have h3: "(1::int) \<le> 2" by simp
  have h4: "CONCURRENCY_LIMIT_var (envWith None) = None" by (simp add: envWith_def)
  have e1: "outstanding (take 2 ?tr) = 2" by code_simp
  have e2: "take 5 ?tr ! 4 = AllSettled" by code_simp
  have e3: "?tr = take 4 ?tr @ AllSettled # drop 5 ?tr" by code_simp
  have e4: "?tr = [] @ take 4 ?tr @ drop 4 ?tr" by simp
  have e5: "AllSettled \<notin> set (take 4 ?tr)" by code_simp
  have e6: "started (take 4 ?tr) = 2" by code_simp
  have e7: "fst (main Fatal ?e ?fs neverFails noEarlyReplies) = 0" by code_simp
  from window_bound[where fs = ?fs and e = ?e and rows = scenarioRows and ended = EndOfFile
      and w = 2 and k = 5 and fails = neverFails and sched = noEarlyReplies and rt = Fatal
      and pre = "take 4 ?tr" and post = "drop 5 ?tr"
      and pre' = "[]" and mid = "take 4 ?tr" and post' = "drop 4 ?tr"
      and e' = "envWith None", OF h1 h2 h3] e3 e4 e5 e7 h4
  have "outstanding (take 5 ?tr) \<le> nat 2 \<and> outstanding (take 4 ?tr) = 0 \<and> outstanding ?tr = 0 \<and>
        CONCURRENCY_LIMIT (envWith None) = Num 20"
    by simp
  then show ?thesis using h1 h2 h4 e1 e2 e5 e6 e7 by simp
qed

text \<open>
  With \<open>CONCURRENCY_LIMIT=0\<close> the limit parses to 0, and after the first request of a
  one-row file one task is outstanding: more than the limit.
\<close>

theorem window_bound_counterexample:
  "CONCURRENCY_LIMIT (envWith (Some ''0'')) = Num 0 \<and>
   outstanding (take 1 (trace (snd (main Fatal (envWith (Some ''0''))
      (onlyFile ''./logs-insights-results.csv'' (File [mkRow ''u1'' ''z1'' ''mac''] EndOfFile))
      neverFails noEarlyReplies)))) = 1"
  by code_simp

section \<open>A limit that is not a number\<close>

lemma hex_prefix_digit: "take 2 u = ''0x'' \<or> take 2 u = ''0X'' \<Longrightarrow> \<exists>c cs. u = c # cs \<and> isDigit 10 c"
  by (cases u) (auto simp add: isDigit_def digitValue_def)

lemma parseInt_nonNumeric:
  assumes "nonNumeric s"
  shows "parseInt s = NaN"
proof -
  define t where "t = dropWhile isWhiteSpace s"
  define u where "u = (if take 1 t = ''-'' \<or> take 1 t = ''+'' then drop 1 t else t)"
  have nd: "case u of [] \<Rightarrow> True | c # cs \<Rightarrow> \<not> isDigit 10 c"
    using assms unfolding nonNumeric_def Let_def t_def u_def by (rule conjunct2)
  have nh: "\<not> (take 2 u = ''0x'' \<or> take 2 u = ''0X'')"
    using nd hex_prefix_digit[of u] by (auto split: list.splits)
  have "takeWhile (isDigit 10) u = []"
    using nd by (cases u) simp_all
  then show ?thesis
    using nh unfolding parseInt_def Let_def t_def[symmetric] u_def[symmetric] by simp
qed

lemma limit_nonNumeric:
  "CONCURRENCY_LIMIT_var e = Some s \<Longrightarrow> nonNumeric s \<Longrightarrow> CONCURRENCY_LIMIT e = NaN"
  using parseInt_nonNumeric[of s]
  by (auto simp add: CONCURRENCY_LIMIT_def orDefault_def nonNumeric_def)

subsection \<open>Nothing is awaited before the flush\<close>

lemma set_trace_deliver:
  "set (trace (deliver fails n st)) \<subseteq> set (trace st) \<union> {Reply n (\<not> fails n)}"
  by (auto simp add: deliver_cases split: option.splits)

lemma unsettled_deliver:
  "AllSettled \<notin> set (trace st) \<Longrightarrow> AllSettled \<notin> set (trace (deliver fails n st))"
  using set_trace_deliver[of fails n st] by auto

lemma unsettled_fold_deliver:
  "AllSettled \<notin> set (trace st) \<Longrightarrow> AllSettled \<notin> set (trace (fold (deliver fails) ns st))"
  by (induction ns arbitrary: st) (simp_all add: unsettled_deliver)

lemma unsettled_body:
  "AllSettled \<notin> set (trace st) \<Longrightarrow> AllSettled \<notin> set (trace (body NaN T fails row st))"
  by (auto simp add: body_def Let_def processRow_cases split: prod.splits option.splits if_splits)

lemma unsettled_arrive:
  "AllSettled \<notin> set (trace st) \<Longrightarrow> AllSettled \<notin> set (trace (arrive rt fails sched st))"
  by (rule arrive_preserves) (simp_all add: unsettled_deliver)

lemma unsettled_forAwait:
  "AllSettled \<notin> set (trace st) \<Longrightarrow>
   AllSettled \<notin> set (trace (forAwait rt NaN T fails sched rows st))"
  by (rule forAwait_preserves[where P = "\<lambda>s. AllSettled \<notin> set (trace s)", rotated 2])
    (simp_all add: unsettled_body unsettled_arrive)

lemma unsettled_atRow:
  "CONCURRENCY_LIMIT e = NaN \<Longrightarrow> AllSettled \<notin> set (trace (atRow rt e fails sched rows))"
  by (simp add: atRow_def unsettled_arrive unsettled_forAwait)

lemma last_only:
  assumes "tr = es @ [AllSettled] \<or> tr = es" and "AllSettled \<notin> set es"
    and "tr = pre @ AllSettled # post"
  shows "post = []"
proof (cases post rule: rev_cases)
  case Nil
  then show ?thesis .
next
  case (snoc post' x)
  from assms(1) show ?thesis
  proof
    assume "tr = es @ [AllSettled]"
    with assms(3) snoc have "es = pre @ AllSettled # post'" by simp
    with assms(2) show ?thesis by simp
  next
    assume "tr = es"
    with assms(2,3) show ?thesis by simp
  qed
qed

text \<open>
  The history of a run with limit \<open>NaN\<close>: that of the loop, in which nothing is
  awaited, followed by the one \<open>AllSettled\<close> of the final flush if the run gets there
  with a batch.
\<close>

lemma flush_shape:
  assumes "fs (csvFilePath e) = Some (File rows ended)" and "CONCURRENCY_LIMIT e = NaN"
  shows "\<exists>es. AllSettled \<notin> set es \<and>
           trace (snd (main rt e fs fails sched)) =
             (if fst (main rt e fs fails sched) = 0 \<and> length (batch (atRow rt e fails sched rows)) > 0
              then es @ [AllSettled] else es)"
proof -
  let ?st = "atRow rt e fails sched rows"
  let ?es = "trace (fold (deliver fails) (pendingIds (batch ?st)) ?st)"
  have u: "AllSettled \<notin> set (trace ?st)" using assms(2) by (rule unsettled_atRow)
  show ?thesis
  proof (cases "fst (main rt e fs fails sched) = 0 \<and> length (batch ?st) > 0")
    case True
    have "AllSettled \<notin> set ?es" using u by (rule unsettled_fold_deliver)
    moreover have "trace (snd (main rt e fs fails sched)) = ?es @ [AllSettled]"
      using True main_trace_cases[where fs = fs and e = e, OF assms(1), of rt fails sched]
      by (simp add: allSettled_def Let_def)
    ultimately show ?thesis using True by auto
  next
    case False
    then have "trace (snd (main rt e fs fails sched)) = trace ?st"
      using main_trace_cases[where fs = fs and e = e, OF assms(1), of rt fails sched] by auto
    then show ?thesis using u False by auto
  qed
qed

lemma flush_once:
  assumes "fs (csvFilePath e) = Some (File rows ended)" and "CONCURRENCY_LIMIT e = NaN"
    and "trace (snd (main rt e fs fails sched)) = pre @ AllSettled # post"
  shows "post = []"
proof -
  obtain es where es: "AllSettled \<notin> set es"
    "trace (snd (main rt e fs fails sched)) =
       (if fst (main rt e fs fails sched) = 0 \<and> length (batch (atRow rt e fails sched rows)) > 0
        then es @ [AllSettled] else es)"
    using flush_shape[where fs = fs and e = e, OF assms(1,2), of rt fails sched] by blast
  have "trace (snd (main rt e fs fails sched)) = es @ [AllSettled] \<or>
        trace (snd (main rt e fs fails sched)) = es"
    using es(2) by (simp split: if_splits)
  then show ?thesis using es(1) assms(3) by (rule last_only)
qed

subsection \<open>The batch is never emptied\<close>

lemma length_batch_arrive [simp]: "length (batch (arrive rt fails sched st)) = length (batch st)"
proof -
  have "length (batch (arrive rt fails sched st)) = length (batch st) \<and> True"
    by (rule arrive_preserves[where P = "\<lambda>s. length (batch s) = length (batch st) \<and> True"])
      simp_all
  then show ?thesis by simp
qed

lemma crashed_arrive: "crashed st \<Longrightarrow> crashed (arrive rt fails sched st)"
  by (simp add: arrive_def)

lemma length_batch_body_NaN:
  "length (batch (body NaN T fails row st)) = length (batch st) + (if isValidRow row then 1 else 0)"
  by (simp add: body_def Let_def logger_def split: prod.splits)
    (auto simp add: processRow_cases split: if_splits option.splits)

lemma length_batch_forAwait_NaN:
  assumes "\<not> crashed (forAwait rt NaN T fails sched rows st)"
  shows "length (batch (forAwait rt NaN T fails sched rows st)) =
           length (batch st) + length (filter isValidRow rows)"
  using assms
proof (induction rows arbitrary: st)
  case Nil
  then show ?case by simp
next
  case (Cons row rows)
  let ?st' = "arrive rt fails sched st"
  have nc: "\<not> crashed ?st'" using Cons.prems by (auto simp add: Let_def split: if_splits)
  then have eq: "forAwait rt NaN T fails sched (row # rows) st =
                 forAwait rt NaN T fails sched rows (body NaN T fails row ?st')"
    by (simp add: Let_def)
  have "length (batch (forAwait rt NaN T fails sched rows (body NaN T fails row ?st'))) =
          length (batch (body NaN T fails row ?st')) + length (filter isValidRow rows)"
    using Cons.prems unfolding eq by (rule Cons.IH)
  then show ?case unfolding eq by (simp add: length_batch_body_NaN)
qed

lemma length_batch_atRow_NaN:
  assumes "CONCURRENCY_LIMIT e = NaN" and "\<not> crashed (atRow rt e fails sched rows)"
  shows "length (batch (atRow rt e fails sched rows)) = length (filter isValidRow rows)"
proof -
  have "\<not> crashed (forAwait rt NaN (TABLE_NAME e) fails sched rows (started0 e))"
    using assms crashed_arrive by (auto simp add: atRow_def)
  from length_batch_forAwait_NaN[OF this] show ?thesis using assms(1) by (simp add: atRow_def)
qed

text \<open>
  A run with limit \<open>NaN\<close> that ends with exit code 0 over a file with a valid row: its
  history ends with the only \<open>AllSettled\<close>, the final flush.
\<close>

lemma flush_last:
  assumes "fs (csvFilePath e) = Some (File rows ended)" and "CONCURRENCY_LIMIT e = NaN"
    and "fst (main rt e fs fails sched) = 0" and "filter isValidRow rows \<noteq> []"
  shows "\<exists>es. AllSettled \<notin> set es \<and> trace (snd (main rt e fs fails sched)) = es @ [AllSettled]"
proof -
  have "\<not> crashed (atRow rt e fails sched rows)"
    using main_exit[where fs = fs and e = e, OF assms(1), of rt fails sched] assms(3)
    by (simp split: if_splits)
  then have "length (batch (atRow rt e fails sched rows)) > 0"
    using length_batch_atRow_NaN[OF assms(2)] assms(4) by simp
  then show ?thesis
    using flush_shape[where fs = fs and e = e, OF assms(1,2), of rt fails sched] assms(3) by simp
qed

subsection \<open>Every task is outstanding at once\<close>

lemma onlyUpdates_counts:
  "onlyUpdates es \<Longrightarrow> length (inflight es) = length es \<and> length (requests es) = length es"
proof (induction es rule: rev_induct)
  case Nil
  then show ?case by (simp add: inflight_def)
next
  case (snoc e es)
  then show ?case by (auto simp add: onlyUpdates_def inflight_snoc requests_append)
qed

lemma arrive_noEarlyReplies [simp]: "arrive rt fails noEarlyReplies st = st"
  by (simp add: arrive_def noEarlyReplies_def)

lemma flooding_body:
  assumes "flooding st"
  shows "flooding (body NaN T fails row st) \<and>
         length (trace (body NaN T fails row st)) =
           length (trace st) + (if classifiable row then 1 else 0)"
  using assms
  by (auto simp add: flooding_def onlyUpdates_def body_def Let_def logger_def processRow_cases
      classifiable_def split: prod.splits option.splits if_splits)

lemma crashed_forAwait_noEarlyReplies [simp]:
  "crashed (forAwait rt limit T fails noEarlyReplies rows st) = crashed st"
  by (induction rows arbitrary: st) (simp_all add: Let_def)

lemma crashed_atRow_noEarlyReplies [simp]: "\<not> crashed (atRow rt e fails noEarlyReplies rows)"
  by (simp add: atRow_def)

lemma flooding_forAwait:
  "flooding st \<Longrightarrow> \<not> crashed st \<Longrightarrow>
   flooding (forAwait rt NaN T fails noEarlyReplies rows st) \<and>
   length (trace (forAwait rt NaN T fails noEarlyReplies rows st)) =
     length (trace st) + length (filter classifiable rows)"
proof (induction rows arbitrary: st)
  case Nil
  then show ?case by simp
next
  case (Cons row rows)
  from flooding_body[OF Cons.prems(1), of T fails row] Cons.IH[of "body NaN T fails row st"]
    Cons.prems(2)
  show ?case by (simp add: Let_def)
qed

lemma prefix_trace_deliver: "prefix (trace st) (trace (deliver fails n st))"
  by (simp add: deliver_cases split: option.splits)

lemma prefix_trace_fold_deliver: "prefix (trace st) (trace (fold (deliver fails) ns st))"
proof (induction ns arbitrary: st)
  case Nil
  then show ?case by simp
next
  case (Cons n ns)
  show ?case using prefix_order.trans[OF prefix_trace_deliver[of st fails n] Cons[of "deliver fails n st"]]
    by simp
qed

lemma prefix_trace_allSettled: "prefix (trace st) (trace (allSettled fails st))"
  using prefix_trace_fold_deliver[of st fails "pendingIds (batch st)"]
  by (simp add: allSettled_def Let_def prefix_def) auto

lemma flood_all:
  assumes "fs (csvFilePath e) = Some (File rows EndOfFile)" and "CONCURRENCY_LIMIT e = NaN"
  shows "outstanding (take (length (filter classifiable rows))
           (trace (snd (main rt e fs fails noEarlyReplies)))) =
         length (filter classifiable rows) \<and>
         started (trace (snd (main rt e fs fails noEarlyReplies))) =
         length (filter classifiable rows)"
proof -
  let ?st2 = "atRow rt e fails noEarlyReplies rows"
  let ?tr = "trace (snd (main rt e fs fails noEarlyReplies))"
  have f1: "flooding (started0 e)" by (simp add: flooding_def onlyUpdates_def)
  from flooding_forAwait[OF f1 crashed_started0, of rt "TABLE_NAME e" fails rows]
  have ou: "onlyUpdates (trace ?st2)" and len: "length (trace ?st2) = length (filter classifiable rows)"
    using assms(2) by (simp_all add: flooding_def atRow_def)
  have pre: "prefix (trace ?st2) ?tr"
    using prefix_trace_allSettled[of ?st2 fails]
      main_trace_cases[where fs = fs and e = e, OF assms(1), of rt fails noEarlyReplies]
    by (simp split: if_splits)
  then have tk: "take (length (filter classifiable rows)) ?tr = trace ?st2"
    using len by (auto simp add: prefix_def)
  have rq: "requests ?tr = requests (trace ?st2)"
    using main_trace_cases[where fs = fs and e = e, OF assms(1), of rt fails noEarlyReplies]
    by (simp split: if_splits)
  show ?thesis
    using onlyUpdates_counts[OF ou] len unfolding tk outstanding_def started_def rq by simp
qed



section \<open>The dedup tracker\<close>

lemma deviceId_request [simp]: "deviceId (request T suid zid osValue) = zid"
  by (simp add: deviceId_def request_def updateItemWithOs_def)

lemma pendings_append: "pendings (ps @ qs) = pendings ps @ pendings qs"
  by (induction ps rule: pendings.induct) simp_all

lemma awaiting_Some: "awaiting n ps = Some z \<Longrightarrow> (n, z) \<in> set (pendings ps)"
  by (induction n ps rule: awaiting.induct) (auto split: if_splits)

lemma pendings_settleWith:
  "pendings [r] = [] \<Longrightarrow> set (pendings (settleWith n r ps)) \<subseteq> set (pendings ps)"
proof (induction ps)
  case Nil
  then show ?case by simp
next
  case (Cons q ps)
  have "pendings (r # ps) = pendings ps"
    using Cons.prems by (cases r) simp_all
  with Cons show ?case by (cases q) auto
qed

lemma succeeded_Update:
  "Reply c True \<notin> set es \<Longrightarrow> succeeded (es @ [Update c p]) = succeeded es"
  by (simp add: succeeded_def requests_append)

lemma succeeded_AllSettled: "succeeded (es @ [AllSettled]) = succeeded es"
  by (simp add: succeeded_def requests_append)

lemma succeeded_Reply_False: "succeeded (es @ [Reply n False]) = succeeded es"
  by (simp add: succeeded_def requests_append)

lemma deviceId_image: "{deviceId p | p. (n, p) \<in> S} = (\<lambda>np. deviceId (snd np)) ` {np \<in> S. fst np = n}"
  by force

lemma succeeded_Reply_True:
  "set (succeeded (es @ [Reply n True])) =
     set (succeeded es) \<union> {deviceId p | p. (n, p) \<in> set (requests es)}"
proof -
  have "set (succeeded (es @ [Reply n True])) =
     (\<lambda>np. deviceId (snd np)) `
       ({np \<in> set (requests es). fst np = n} \<union> {np \<in> set (requests es). Reply (fst np) True \<in> set es})"
    by (simp add: succeeded_def requests_append Collect_disj_eq disj_commute conj_disj_distribL)
  then show ?thesis
    by (simp add: image_Un deviceId_image succeeded_def Un_commute)
qed


lemma processRow_outcome:
  assumes "processRow T row st = (p, st')"
  obtains (skip) "p = Fulfilled False" "trace st' = trace st" "calls st' = calls st"
      "processedDevices st' = processedDevices st" "batch st' = batch st"
      "col row ''zid'' \<in> set (processedDevices st) \<or> getOsFromSourceApp (col row ''sourceApp'') = None"
  | (send) osValue where "col row ''zid'' \<notin> set (processedDevices st)"
      "getOsFromSourceApp (col row ''sourceApp'') = Some osValue"
      "p = Pending (calls st) (col row ''zid'')"
      "trace st' = trace st @ [Update (calls st) (request T (col row ''suid'') (col row ''zid'') osValue)]"
      "calls st' = calls st + 1"
      "processedDevices st' = processedDevices st" "batch st' = batch st"
  using assms by (auto simp add: processRow_cases split: if_splits option.splits)

lemma tracked_replies:
  "tracked st \<Longrightarrow> Reply n ok \<in> set (trace st) \<Longrightarrow> n < calls st"
  unfolding tracked_def by blast

lemma tracked_ids:
  assumes "tracked st" and "(n, p) \<in> set (requests (trace st))"
  shows "n < calls st"
proof -
  have "set (map fst (requests (trace st))) = {0..<calls st}"
    using assms(1) by (simp add: tracked_def)
  moreover have "n \<in> set (map fst (requests (trace st)))" using assms(2) by force
  ultimately show ?thesis by simp
qed

lemma tracked_unique:
  assumes "tracked st" and "(n, p) \<in> set (requests (trace st))" and "(n, q) \<in> set (requests (trace st))"
  shows "p = q"
proof -
  have "distinct (map fst (requests (trace st)))" using assms(1) by (simp add: tracked_def)
  then show ?thesis using assms(2,3) by (meson eq_key_imp_eq_value)
qed

lemma tracked_link:
  "tracked st \<Longrightarrow> (n, z) \<in> set (pendings (batch st)) \<Longrightarrow>
   \<exists>p. (n, p) \<in> set (requests (trace st)) \<and> deviceId p = z"
  unfolding tracked_def by blast

lemma tracked_devices: "tracked st \<Longrightarrow> set (processedDevices st) = set (succeeded (trace st))"
  unfolding tracked_def by blast

lemma trackedI:
  assumes "map fst (requests (trace st)) = [0..<calls st]"
    and "\<And>n ok. Reply n ok \<in> set (trace st) \<Longrightarrow> n < calls st"
    and "set (processedDevices st) = set (succeeded (trace st))"
    and "\<And>n z. (n, z) \<in> set (pendings (batch st)) \<Longrightarrow>
        \<exists>p. (n, p) \<in> set (requests (trace st)) \<and> deviceId p = z"
  shows "tracked st"
  unfolding tracked_def using assms by blast

lemma set_setAdd [simp]: "set (setAdd z ps) = insert z (set ps)"
  by (auto simp add: setAdd_def)

lemma deliver_Some:
  assumes "awaiting n (batch st) = Some z"
  shows "trace (deliver fails n st) = trace st @ [Reply n (\<not> fails n)]"
    and "processedDevices (deliver fails n st) =
           (if fails n then processedDevices st else setAdd z (processedDevices st))"
    and "batch (deliver fails n st) =
           settleWith n (if fails n then Rejected else Fulfilled True) (batch st)"
  using assms by (simp_all add: deliver_cases)

lemma tracked_deliver:
  assumes "tracked st"
  shows "tracked (deliver fails n st)"
proof (cases "awaiting n (batch st)")
  case None
  then show ?thesis using assms by (simp add: deliver_cases)
next
  case (Some z)
  note d = deliver_Some[OF Some, of fails]
  from tracked_link[OF assms awaiting_Some[OF Some]] obtain p where
    p: "(n, p) \<in> set (requests (trace st))" "deviceId p = z"
    by blast
  have lt: "n < calls st" using tracked_ids[OF assms p(1)] .
  have same: "q = p" if "(n, q) \<in> set (requests (trace st))" for q
    using tracked_unique[OF assms that p(1)] .
  have one: "{deviceId q | q. (n, q) \<in> set (requests (trace st))} = {z}"
    using p same by blast
  have sub: "set (pendings (batch (deliver fails n st))) \<subseteq> set (pendings (batch st))"
    unfolding d by (rule pendings_settleWith) simp
  show ?thesis
  proof (rule trackedI)
    show "map fst (requests (trace (deliver fails n st))) = [0..<calls (deliver fails n st)]"
      using assms by (simp add: tracked_def)
  next
    fix m ok
    assume "Reply m ok \<in> set (trace (deliver fails n st))"
    then have "Reply m ok \<in> set (trace st) \<or> m = n" unfolding d by auto
    then show "m < calls (deliver fails n st)"
      using tracked_replies[OF assms] lt by auto
  next
    show "set (processedDevices (deliver fails n st)) = set (succeeded (trace (deliver fails n st)))"
      unfolding d using tracked_devices[OF assms] one
      by (simp add: succeeded_Reply_False succeeded_Reply_True)
  next
    fix m y
    assume "(m, y) \<in> set (pendings (batch (deliver fails n st)))"
    then have "(m, y) \<in> set (pendings (batch st))" using sub by auto
    from tracked_link[OF assms this]
    show "\<exists>p. (m, p) \<in> set (requests (trace (deliver fails n st))) \<and> deviceId p = y"
      by simp
  qed
qed

lemma tracked_fold_deliver: "tracked st \<Longrightarrow> tracked (fold (deliver fails) ns st)"
  by (induction ns arbitrary: st) (simp_all add: tracked_deliver)

lemma tracked_admit:
  assumes "tracked st" and "processRow T row st = (p, st')"
  shows "tracked (st'\<lparr> batch := batch st' @ [p] \<rparr>)"
  using assms(2)
proof (cases rule: processRow_outcome)
  case skip
  then show ?thesis using assms(1) by (simp add: tracked_def pendings_append)
next
  case (send osValue)
  have nr: "Reply (calls st) True \<notin> set (trace st)"
    using tracked_replies[OF assms(1), of "calls st" True] by auto
  show ?thesis
  proof (rule trackedI)
    show "map fst (requests (trace (st'\<lparr> batch := batch st' @ [p] \<rparr>))) =
        [0..<calls (st'\<lparr> batch := batch st' @ [p] \<rparr>)]"
      using assms(1) send by (simp add: tracked_def requests_append)
  next
    fix m ok
    assume "Reply m ok \<in> set (trace (st'\<lparr> batch := batch st' @ [p] \<rparr>))"
    then have "Reply m ok \<in> set (trace st)" using send by simp
    from tracked_replies[OF assms(1) this]
    show "m < calls (st'\<lparr> batch := batch st' @ [p] \<rparr>)" using send by simp
  next
    show "set (processedDevices (st'\<lparr> batch := batch st' @ [p] \<rparr>)) =
        set (succeeded (trace (st'\<lparr> batch := batch st' @ [p] \<rparr>)))"
      using send tracked_devices[OF assms(1)] nr by (simp add: succeeded_Update)
  next
    fix m y
    assume "(m, y) \<in> set (pendings (batch (st'\<lparr> batch := batch st' @ [p] \<rparr>)))"
    then have "(m, y) \<in> set (pendings (batch st)) \<or> (m, y) = (calls st, col row ''zid'')"
      using send by (auto simp add: pendings_append)
    then show "\<exists>q. (m, q) \<in> set (requests (trace (st'\<lparr> batch := batch st' @ [p] \<rparr>))) \<and>
        deviceId q = y"
    proof
      assume "(m, y) \<in> set (pendings (batch st))"
      from tracked_link[OF assms(1) this] show ?thesis
        using send by (auto simp add: requests_append)
    next
      assume "(m, y) = (calls st, col row ''zid'')"
      then show ?thesis using send by (auto simp add: requests_append)
    qed
  qed
qed

lemma tracked_allSettled: "tracked st \<Longrightarrow> tracked ((allSettled fails st)\<lparr> batch := [] \<rparr>)"
  using tracked_fold_deliver[of st fails "pendingIds (batch st)"]
  by (simp add: allSettled_def Let_def tracked_def requests_append succeeded_AllSettled)

lemma tracked_body: "tracked st \<Longrightarrow> tracked (body limit T fails row st)"
proof -
  assume s: "tracked st"
  let ?st1 = "st\<lparr> processedCount := processedCount st + 1 \<rparr>"
  have s1: "tracked ?st1" using s by (simp add: tracked_def)
  show ?thesis
  proof (cases "isValidRow row")
    case False
    then show ?thesis using s1 by (simp add: body_def Let_def logger_def tracked_def)
  next
    case True
    obtain p st2 where pr: "processRow T row ?st1 = (p, st2)" by (cases "processRow T row ?st1")
    let ?st3 = "st2\<lparr> batch := batch st2 @ [p] \<rparr>"
    have s3: "tracked ?st3" using tracked_admit[OF s1 pr] .
    have s4: "tracked ((allSettled fails ?st3)\<lparr> batch := [] \<rparr>)"
      using tracked_allSettled[OF s3] .
    show ?thesis using True pr s3 s4
      by (simp add: body_def Let_def logger_def tracked_def)
  qed
qed

lemma tracked_arrive: "tracked st \<Longrightarrow> tracked (arrive rt fails sched st)"
  by (rule arrive_preserves) (simp_all add: tracked_deliver, simp add: tracked_def)

lemma tracked_forAwait:
  "tracked st \<Longrightarrow> tracked (forAwait rt limit T fails sched rows st)"
  by (rule forAwait_preserves[where P = tracked, rotated 2]) (simp_all add: tracked_body tracked_arrive)

section \<open>Which rows reach the store\<close>

lemma tracked_started0: "tracked (started0 e)"
  by (simp add: tracked_def succeeded_def)

lemma tracked_atRow: "tracked (atRow rt e fails sched rows)"
  by (simp add: atRow_def tracked_arrive tracked_forAwait tracked_started0)

lemma body_skip:
  assumes "isValidRow r" and "col r ''zid'' \<in> set (processedDevices st)"
  shows "requests (trace (body limit T fails r st)) = requests (trace st)"
    and "(INFO, SkippingUpdate (col r ''suid'') (col r ''zid'')) \<in> set (logs (body limit T fails r st))"
  using assms by (simp_all add: body_def Let_def processRow_cases logger_def)

lemma body_send:
  assumes "isValidRow r" and "col r ''zid'' \<notin> set (processedDevices st)"
    and "getOsFromSourceApp (col r ''sourceApp'') = Some osValue"
  shows "requests (trace (body limit T fails r st)) =
           requests (trace st) @ [(calls st, request T (col r ''suid'') (col r ''zid'') osValue)]"
  using assms by (simp add: body_def Let_def processRow_cases logger_def requests_append)

text \<open>
  Claim C1, as the code has it. \<open>processedDevices.add(zid)\<close> runs after the
  \<open>await\<close> of the update, so the tracker is marked when the update has succeeded,
  not at admission. At the moment a run reads a row, after any rows, replies and
  failures before it: the tracker holds exactly the devices whose update has been
  answered with success; a valid row whose \<open>zid\<close> is among them sends no request
  and is logged as skipped; a valid, classified row whose \<open>zid\<close> is not among
  them (its earlier update failed, or is still outstanding in the same window, or
  there was none) sends a request.
\<close>

theorem dedup_on_success:
  "set (processedDevices (atRow rt e fails sched rows)) =
     set (succeeded (trace (atRow rt e fails sched rows))) \<and>
   (isValidRow r \<and> col r ''zid'' \<in> set (succeeded (trace (atRow rt e fails sched rows))) \<longrightarrow>
      requests (trace (body (CONCURRENCY_LIMIT e) (TABLE_NAME e) fails r (atRow rt e fails sched rows))) =
        requests (trace (atRow rt e fails sched rows)) \<and>
      (INFO, SkippingUpdate (col r ''suid'') (col r ''zid''))
        \<in> set (logs (body (CONCURRENCY_LIMIT e) (TABLE_NAME e) fails r (atRow rt e fails sched rows)))) \<and>
   (isValidRow r \<and> col r ''zid'' \<notin> set (succeeded (trace (atRow rt e fails sched rows))) \<and>
    getOsFromSourceApp (col r ''sourceApp'') = Some osValue \<longrightarrow>
      requests (trace (body (CONCURRENCY_LIMIT e) (TABLE_NAME e) fails r (atRow rt e fails sched rows))) =
        requests (trace (atRow rt e fails sched rows)) @
          [(calls (atRow rt e fails sched rows),
            request (TABLE_NAME e) (col r ''suid'') (col r ''zid'') osValue)])"
  using tracked_devices[OF tracked_atRow[of rt e fails sched rows]]
    body_skip[of r "atRow rt e fails sched rows" "CONCURRENCY_LIMIT e" "TABLE_NAME e" fails]
    body_send[of r "atRow rt e fails sched rows" osValue "CONCURRENCY_LIMIT e" "TABLE_NAME e" fails]
  by simp

theorem dedup_on_success_witness:
  "isValidRow (mkRow ''u9'' ''z1'' ''windows'') \<and>
   col (mkRow ''u9'' ''z1'' ''windows'') ''zid''
     \<in> set (succeeded (trace (atRow Fatal (envWith (Some ''1'')) neverFails noEarlyReplies
              [mkRow ''u1'' ''z1'' ''mac'']))) \<and>
   started (trace (body (CONCURRENCY_LIMIT (envWith (Some ''1''))) (TABLE_NAME (envWith (Some ''1'')))
       neverFails (mkRow ''u9'' ''z1'' ''windows'')
       (atRow Fatal (envWith (Some ''1'')) neverFails noEarlyReplies [mkRow ''u1'' ''z1'' ''mac'']))) = 1 \<and>
   col (mkRow ''u9'' ''z1'' ''windows'') ''zid''
     \<notin> set (succeeded (trace (atRow Fatal (envWith (Some ''1'')) (failsAt [0]) noEarlyReplies
              [mkRow ''u1'' ''z1'' ''mac'']))) \<and>
   getOsFromSourceApp (col (mkRow ''u9'' ''z1'' ''windows'') ''sourceApp'') = Some ''Windows'' \<and>
   started (trace (body (CONCURRENCY_LIMIT (envWith (Some ''1''))) (TABLE_NAME (envWith (Some ''1'')))
       (failsAt [0]) (mkRow ''u9'' ''z1'' ''windows'')
       (atRow Fatal (envWith (Some ''1'')) (failsAt [0]) noEarlyReplies [mkRow ''u1'' ''z1'' ''mac'']))) = 2"
proof -
  let ?e = "envWith (Some ''1'')"
  let ?r = "mkRow ''u9'' ''z1'' ''windows''"
  let ?ok = "atRow Fatal ?e neverFails noEarlyReplies [mkRow ''u1'' ''z1'' ''mac'']"
  let ?ko = "atRow Fatal ?e (failsAt [0]) noEarlyReplies [mkRow ''u1'' ''z1'' ''mac'']"
  have v: "isValidRow ?r" by code_simp
  have a: "col ?r ''zid'' \<in> set (succeeded (trace ?ok))" by code_simp
  have b: "col ?r ''zid'' \<notin> set (succeeded (trace ?ko))" by code_simp
  have c: "getOsFromSourceApp (col ?r ''sourceApp'') = Some ''Windows''" by code_simp
  have n1: "length (requests (trace ?ok)) = 1" by code_simp
  have n2: "length (requests (trace ?ko)) = 1" by code_simp
  from dedup_on_success[of Fatal ?e neverFails noEarlyReplies "[mkRow ''u1'' ''z1'' ''mac'']" ?r] v a
  have s1: "requests (trace (body (CONCURRENCY_LIMIT ?e) (TABLE_NAME ?e) neverFails ?r ?ok)) =
      requests (trace ?ok)"
    by blast
  from dedup_on_success[of Fatal ?e "failsAt [0]" noEarlyReplies "[mkRow ''u1'' ''z1'' ''mac'']" ?r
      "''Windows''"] v b c
  have s2: "requests (trace (body (CONCURRENCY_LIMIT ?e) (TABLE_NAME ?e) (failsAt [0]) ?r ?ko)) =
      requests (trace ?ko) @ [(calls ?ko, request (TABLE_NAME ?e) (col ?r ''suid'') (col ?r ''zid'') ''Windows'')]"
    by blast
  show ?thesis using v a b c n1 n2 unfolding started_def s1 s2 by simp
qed

text \<open>
  Admitting a row leaves the tracker as it was; and with a window of 1, a first
  row whose update fails, and a second row with the same \<open>zid\<close>, both rows send a
  request and nothing is logged as skipped.
\<close>

theorem dedup_counterexample:
  "processedDevices (snd (processRow ''qa-user'' (mkRow ''u1'' ''z1'' ''mac'') initial)) = [] \<and>
   requestedDevices (trace (snd (main Fatal (envWith (Some ''1''))
      (onlyFile ''./logs-insights-results.csv''
         (File [mkRow ''u1'' ''z1'' ''mac'', mkRow ''u1'' ''z1'' ''mac''] EndOfFile))
      (failsAt [0]) noEarlyReplies))) = [''z1'', ''z1''] \<and>
   (INFO, SkippingUpdate ''u1'' ''z1'') \<notin> set (logs (snd (main Fatal (envWith (Some ''1''))
      (onlyFile ''./logs-insights-results.csv''
         (File [mkRow ''u1'' ''z1'' ''mac'', mkRow ''u1'' ''z1'' ''mac''] EndOfFile))
      (failsAt [0]) noEarlyReplies)))"
  by code_simp

subsection \<open>No request after a success\<close>

lemma neverRepeats_snoc:
  assumes "neverRepeats es"
    and "\<And>m q. e = Update m q \<Longrightarrow> deviceId q \<notin> set (succeeded es)"
  shows "neverRepeats (es @ [e])"
  unfolding neverRepeats_def
proof (intro allI impI)
  fix pre m q post
  assume eq: "es @ [e] = pre @ Update m q # post"
  show "deviceId q \<notin> set (succeeded pre)"
  proof (cases post rule: rev_cases)
    case Nil
    with eq have "pre = es" "e = Update m q" by simp_all
    then show ?thesis using assms(2) by simp
  next
    case (snoc post' x)
    with eq have "es = pre @ Update m q # post'" by simp
    then show ?thesis using assms(1) by (simp add: neverRepeats_def)
  qed
qed

lemma neverRepeats_Reply: "neverRepeats es \<Longrightarrow> neverRepeats (es @ [Reply n ok])"
  by (rule neverRepeats_snoc) simp_all

lemma neverRepeats_AllSettled: "neverRepeats es \<Longrightarrow> neverRepeats (es @ [AllSettled])"
  by (rule neverRepeats_snoc) simp_all

lemma neverRepeats_Update:
  "neverRepeats es \<Longrightarrow> deviceId q \<notin> set (succeeded es) \<Longrightarrow> neverRepeats (es @ [Update m q])"
  by (rule neverRepeats_snoc) simp_all

lemma neverRepeats_deliver:
  "neverRepeats (trace st) \<Longrightarrow> neverRepeats (trace (deliver fails n st))"
  by (auto simp add: deliver_cases neverRepeats_Reply split: option.splits)

lemma neverRepeats_fold_deliver:
  "neverRepeats (trace st) \<Longrightarrow> neverRepeats (trace (fold (deliver fails) ns st))"
  by (induction ns arbitrary: st) (simp_all add: neverRepeats_deliver)

lemma neverRepeats_allSettled:
  "neverRepeats (trace st) \<Longrightarrow> neverRepeats (trace (allSettled fails st))"
  by (simp add: allSettled_def Let_def neverRepeats_AllSettled neverRepeats_fold_deliver)

lemma neverRepeats_admit:
  assumes "tracked st" and "neverRepeats (trace st)" and "processRow T row st = (p, st')"
  shows "neverRepeats (trace st')"
  using assms(3)
proof (cases rule: processRow_outcome)
  case skip
  then show ?thesis using assms(2) by simp
next
  case (send osValue)
  then show ?thesis using assms(2) tracked_devices[OF assms(1)]
    by (simp add: neverRepeats_Update)
qed

lemma neverRepeats_body:
  assumes "tracked st" and "neverRepeats (trace st)"
  shows "neverRepeats (trace (body limit T fails row st))"
proof -
  let ?st1 = "st\<lparr> processedCount := processedCount st + 1 \<rparr>"
  have s1: "tracked ?st1" "neverRepeats (trace ?st1)" using assms by (simp_all add: tracked_def)
  show ?thesis
  proof (cases "isValidRow row")
    case False
    then show ?thesis using s1 by (simp add: body_def Let_def logger_def)
  next
    case True
    obtain p st2 where pr: "processRow T row ?st1 = (p, st2)" by (cases "processRow T row ?st1")
    let ?st3 = "st2\<lparr> batch := batch st2 @ [p] \<rparr>"
    have n3: "neverRepeats (trace ?st3)" using neverRepeats_admit[OF s1 pr] by simp
    have n4: "neverRepeats (trace (allSettled fails ?st3))"
      using neverRepeats_allSettled[OF n3] .
    show ?thesis using True pr n3 n4
      by (simp add: body_def Let_def logger_def)
  qed
qed

lemma neverRepeats_arrive:
  "neverRepeats (trace st) \<Longrightarrow> neverRepeats (trace (arrive rt fails sched st))"
  by (rule arrive_preserves[where P = "\<lambda>s. neverRepeats (trace s)"])
    (simp_all add: neverRepeats_deliver)

lemma neverRepeats_forAwait:
  assumes "tracked st" and "neverRepeats (trace st)"
  shows "neverRepeats (trace (forAwait rt limit T fails sched rows st))"
proof -
  have "tracked (forAwait rt limit T fails sched rows st) \<and>
        neverRepeats (trace (forAwait rt limit T fails sched rows st))"
    by (rule forAwait_preserves[where P = "\<lambda>s. tracked s \<and> neverRepeats (trace s)"])
      (simp_all add: assms tracked_arrive neverRepeats_arrive tracked_body neverRepeats_body)
  then show ?thesis by simp
qed

lemma neverRepeats_processCsvFile:
  "neverRepeats (trace (snd (processCsvFile rt limit T fails sched f (started0 e))))"
proof (cases f)
  case (File rows ended)
  have "neverRepeats (trace (started0 e))" by (simp add: neverRepeats_def)
  then have "neverRepeats (trace (arrive rt fails sched (forAwait rt limit T fails sched rows (started0 e))))"
    by (simp add: neverRepeats_arrive neverRepeats_forAwait tracked_started0)
  then show ?thesis using File
    by (cases ended) (simp_all add: processCsvFile_def Let_def neverRepeats_allSettled)
qed

text \<open>
  Claim C2, as the code has it. For every run, no request is sent for a device whose
  update has already succeeded: wherever the history has a request, no earlier
  request for the same \<open>zid\<close> has been answered with success before it. Two requests
  can share a \<open>zid\<close> when the earlier one failed or was still outstanding, as for
  duplicates admitted into the same window (see the counterexample).
\<close>

theorem no_update_after_success:
  assumes "fs (csvFilePath e) = Some f"
    and "trace (snd (main rt e fs fails sched)) = pre @ Update m q # post"
  shows "deviceId q \<notin> set (succeeded pre)"
proof -
  have "neverRepeats (trace (snd (main rt e fs fails sched)))"
    using neverRepeats_processCsvFile[of rt "CONCURRENCY_LIMIT e" "TABLE_NAME e" fails sched f e]
      main_trace[of fs e f rt fails sched, OF assms(1)]
    by simp
  then show ?thesis using assms(2) unfolding neverRepeats_def by blast
qed

theorem no_update_after_success_witness:
  "onlyFile ''./logs-insights-results.csv'' (File scenarioRows EndOfFile) (csvFilePath (envWith (Some ''1''))) =
     Some (File scenarioRows EndOfFile) \<and>
   trace (snd (main Fatal (envWith (Some ''1''))
      (onlyFile ''./logs-insights-results.csv'' (File scenarioRows EndOfFile)) neverFails noEarlyReplies)) =
     take 3 (trace (snd (main Fatal (envWith (Some ''1''))
        (onlyFile ''./logs-insights-results.csv'' (File scenarioRows EndOfFile)) neverFails noEarlyReplies))) @
     Update 1 (request ''qa-user'' ''u2'' ''z2'' ''Mac'') #
     drop 4 (trace (snd (main Fatal (envWith (Some ''1''))
        (onlyFile ''./logs-insights-results.csv'' (File scenarioRows EndOfFile)) neverFails noEarlyReplies))) \<and>
   succeeded (take 3 (trace (snd (main Fatal (envWith (Some ''1''))
        (onlyFile ''./logs-insights-results.csv'' (File scenarioRows EndOfFile)) neverFails noEarlyReplies)))) =
     [''z1''] \<and>
   deviceId (request ''qa-user'' ''u2'' ''z2'' ''Mac'')
     \<notin> set (succeeded (take 3 (trace (snd (main Fatal (envWith (Some ''1''))
        (onlyFile ''./logs-insights-results.csv'' (File scenarioRows EndOfFile)) neverFails noEarlyReplies)))))"
proof -
  let ?e = "envWith (Some ''1'')"
  let ?fs = "onlyFile ''./logs-insights-results.csv'' (File scenarioRows EndOfFile)"
  let ?tr = "trace (snd (main Fatal ?e ?fs neverFails noEarlyReplies))"
  have h1: "?fs (csvFilePath ?e) = Some (File scenarioRows EndOfFile)"
    by (simp add: onlyFile_def csvFilePath_def envWith_def orDefault_def)
  have h2: "?tr = take 3 ?tr @ Update 1 (request ''qa-user'' ''u2'' ''z2'' ''Mac'') # drop 4 ?tr"
    by code_simp
  have s: "succeeded (take 3 ?tr) = [''z1'']" by code_simp
  from no_update_after_success[of ?fs ?e "File scenarioRows EndOfFile" Fatal neverFails noEarlyReplies
      "take 3 ?tr" 1 "request ''qa-user'' ''u2'' ''z2'' ''Mac''" "drop 4 ?tr", OF h1 h2]
  show ?thesis using h1 h2 s by simp
qed

text \<open>
  With the default window of 20, two rows with the same \<open>zid\<close> and no reply before
  the flush, two requests are sent for the one device.
\<close>

theorem no_update_after_success_counterexample:
  "CONCURRENCY_LIMIT (envWith None) = Num 20 \<and>
   requestedDevices (trace (snd (main Fatal (envWith None)
      (onlyFile ''./logs-insights-results.csv''
         (File [mkRow ''u1'' ''z1'' ''mac'', mkRow ''u1'' ''z1'' ''mac''] EndOfFile))
      neverFails noEarlyReplies))) = [''z1'', ''z1'']"
  by code_simp

section \<open>Failures of single updates\<close>

subsection \<open>Every request is answered\<close>

lemma answered:
  "n \<in> set (map fst (requests es)) \<Longrightarrow> n \<notin> set (inflight es) \<Longrightarrow> \<exists>ok. Reply n ok \<in> set es"
proof (induction es rule: rev_induct)
  case Nil
  then show ?case by simp
next
  case (snoc e es)
  show ?case
  proof (cases e)
    case (Update m p)
    with snoc show ?thesis by (auto simp add: inflight_snoc requests_append)
  next
    case (Reply m ok)
    with snoc show ?thesis by (cases "m = n") (auto simp add: inflight_snoc requests_append)
  next
    case AllSettled
    with snoc show ?thesis by (auto simp add: inflight_snoc requests_append)
  qed
qed

lemma honest_deliver: "honest fails (trace st) \<Longrightarrow> honest fails (trace (deliver fails n st))"
  by (auto simp add: honest_def deliver_cases split: option.splits)

lemma honest_fold_deliver:
  "honest fails (trace st) \<Longrightarrow> honest fails (trace (fold (deliver fails) ns st))"
  by (induction ns arbitrary: st) (simp_all add: honest_deliver)

lemma honest_allSettled:
  "honest fails (trace st) \<Longrightarrow> honest fails (trace (allSettled fails st))"
  using honest_fold_deliver[of fails st "pendingIds (batch st)"]
  by (simp add: allSettled_def Let_def honest_def)

lemma honest_body: "honest fails (trace st) \<Longrightarrow> honest fails (trace (body limit T fails row st))"
proof -
  assume h: "honest fails (trace st)"
  let ?st1 = "st\<lparr> processedCount := processedCount st + 1 \<rparr>"
  show ?thesis
  proof (cases "isValidRow row")
    case False
    then show ?thesis using h by (simp add: body_def Let_def logger_def)
  next
    case True
    obtain p st2 where pr: "processRow T row ?st1 = (p, st2)" by (cases "processRow T row ?st1")
    let ?st3 = "st2\<lparr> batch := batch st2 @ [p] \<rparr>"
    have h3: "honest fails (trace ?st3)"
      using pr h by (cases rule: processRow_outcome) (simp_all add: honest_def)
    show ?thesis using True pr h3 honest_allSettled[OF h3]
      by (simp add: body_def Let_def logger_def)
  qed
qed

lemma honest_arrive:
  "honest fails (trace st) \<Longrightarrow> honest fails (trace (arrive rt fails sched st))"
  by (rule arrive_preserves[where P = "\<lambda>s. honest fails (trace s)"]) (simp_all add: honest_deliver)

lemma honest_forAwait:
  "honest fails (trace st) \<Longrightarrow> honest fails (trace (forAwait rt limit T fails sched rows st))"
  by (rule forAwait_preserves[where P = "\<lambda>s. honest fails (trace s)", rotated 2])
    (simp_all add: honest_body honest_arrive)

subsection \<open>Counting the updates\<close>

lemma successes_Suc: "successes fails (Suc k) = successes fails k + (if fails k then 0 else 1)"
  by (simp add: successes_def)

lemma countUpdated_append: "countUpdated (ps @ qs) = countUpdated ps + countUpdated qs"
  by (simp add: countUpdated_def)

lemma countUpdated_settle_ok:
  "n \<in> set (pendingIds ps) \<Longrightarrow>
   countUpdated (settleWith n (Fulfilled True) ps) = countUpdated ps + 1"
  by (induction n "Fulfilled True" ps rule: settleWith.induct) (auto simp add: countUpdated_def)

lemma countUpdated_settle_fail:
  "countUpdated (settleWith n Rejected ps) = countUpdated ps"
  by (induction n Rejected ps rule: settleWith.induct) (auto simp add: countUpdated_def)

lemma filter_remove1_out:
  "\<not> P n \<Longrightarrow> filter P (remove1 n xs) = filter P xs"
  by (induction xs) auto

lemma length_filter_remove1_in:
  "P n \<Longrightarrow> n \<in> set xs \<Longrightarrow> length (filter P (remove1 n xs)) + 1 = length (filter P xs)"
  by (induction xs) auto

lemma counted_deliver: "counted fails st \<Longrightarrow> counted fails (deliver fails n st)"
proof (cases "awaiting n (batch st)")
  case None
  assume "counted fails st"
  then show ?thesis using None by (simp add: deliver_cases)
next
  case (Some z)
  assume c: "counted fails st"
  have mem: "n \<in> set (pendingIds (batch st))" using Some awaiting_None[of n "batch st"] by auto
  show ?thesis
  proof (cases "fails n")
    case True
    then show ?thesis using c Some
      by (simp add: counted_def deliver_cases countUpdated_settle_fail pendingIds_settleWith
          filter_remove1_out)
  next
    case False
    then show ?thesis
      using c Some mem length_filter_remove1_in[of "\<lambda>n. \<not> fails n" n "pendingIds (batch st)"]
      by (simp add: counted_def deliver_cases countUpdated_settle_ok pendingIds_settleWith)
  qed
qed

lemma counted_fold_deliver: "counted fails st \<Longrightarrow> counted fails (fold (deliver fails) ns st)"
  by (induction ns arbitrary: st) (simp_all add: counted_deliver)

lemma counts_processRow:
  assumes "processRow T row st = (p, st')"
  shows "updatedCount st' = updatedCount st" and "processedCount st' = processedCount st"
  using assms by (auto simp add: processRow_cases split: if_splits option.splits)

lemma counted_admit:
  assumes "counted fails st" and "processRow T row st = (p, st')"
  shows "counted fails (st'\<lparr> batch := batch st' @ [p] \<rparr>)"
  using assms(2)
proof (cases rule: processRow_outcome)
  case skip
  then show ?thesis using assms(1) counts_processRow(1)[OF assms(2)]
    by (simp add: counted_def countUpdated_append pendingIds_append countUpdated_def)
next
  case (send osValue)
  show ?thesis using send assms(1) counts_processRow(1)[OF assms(2)]
    by (simp add: counted_def countUpdated_append pendingIds_append countUpdated_def successes_Suc)
qed

lemma updatedCount_deliver [simp]: "updatedCount (deliver fails n st) = updatedCount st"
  by (simp add: deliver_cases split: option.splits)

lemma updatedCount_fold_deliver [simp]:
  "updatedCount (fold (deliver fails) ns st) = updatedCount st"
  by (induction ns arbitrary: st) simp_all

lemma processedCount_deliver [simp]: "processedCount (deliver fails n st) = processedCount st"
  by (simp add: deliver_cases split: option.splits)

lemma processedCount_fold_deliver [simp]:
  "processedCount (fold (deliver fails) ns st) = processedCount st"
  by (induction ns arbitrary: st) simp_all

lemma updated_allSettled:
  assumes "structured st" and "counted fails st"
  shows "updatedCount (allSettled fails st) = successes fails (calls st)"
proof -
  let ?st' = "fold (deliver fails) (pendingIds (batch st)) st"
  have "counted fails ?st'" using assms(2) by (rule counted_fold_deliver)
  moreover have "pendingIds (batch ?st') = []" using assms(1) by (rule settled_all)
  ultimately show ?thesis by (simp add: allSettled_def Let_def counted_def)
qed

lemma counted_settle:
  assumes "structured st" and "counted fails st"
  shows "counted fails ((allSettled fails st)\<lparr> batch := [] \<rparr>)"
  using updated_allSettled[OF assms]
  by (simp add: counted_def countUpdated_def allSettled_def Let_def)

lemma counted_body:
  assumes "structured st" and "counted fails st"
  shows "counted fails (body limit T fails row st)"
proof -
  let ?st1 = "st\<lparr> processedCount := processedCount st + 1 \<rparr>"
  have s1: "structured ?st1" "counted fails ?st1"
    using assms by (simp_all add: structured_def counted_def)
  show ?thesis
  proof (cases "isValidRow row")
    case False
    then show ?thesis using s1 by (simp add: body_def Let_def logger_def counted_def)
  next
    case True
    obtain p st2 where pr: "processRow T row ?st1 = (p, st2)" by (cases "processRow T row ?st1")
    let ?st3 = "st2\<lparr> batch := batch st2 @ [p] \<rparr>"
    have s3: "structured ?st3" using structured_admit[OF s1(1) pr] .
    have c3: "counted fails ?st3" using counted_admit[OF s1(2) pr] .
    have c4: "counted fails ((allSettled fails ?st3)\<lparr> batch := [] \<rparr>)"
      using counted_settle[OF s3 c3] .
    show ?thesis using True pr c3 c4
      by (simp add: body_def Let_def logger_def counted_def)
  qed
qed

lemma counted_arrive: "counted fails st \<Longrightarrow> counted fails (arrive rt fails sched st)"
  by (rule arrive_preserves) (simp_all add: counted_deliver, simp add: counted_def)

lemma counted_forAwait:
  assumes "structured st" and "counted fails st"
  shows "counted fails (forAwait rt limit T fails sched rows st)"
proof -
  have "structured (forAwait rt limit T fails sched rows st) \<and>
        counted fails (forAwait rt limit T fails sched rows st)"
    by (rule forAwait_preserves[where P = "\<lambda>s. structured s \<and> counted fails s"])
      (simp_all add: assms structured_arrive counted_arrive structured_body counted_body)
  then show ?thesis by simp
qed

text \<open>What the replies of a pause leave as it was.\<close>

lemma arrive_field:
  assumes "\<And>n s. f (deliver fails n s) = f s" and "\<And>s. f (s\<lparr> crashed := True \<rparr>) = f s"
  shows "f (arrive rt fails sched st) = f st"
  by (rule arrive_preserves[where P = "\<lambda>s. f s = f st"]) (simp_all add: assms)

lemma processedCount_allSettled [simp]: "processedCount (allSettled fails st) = processedCount st"
  by (simp add: allSettled_def Let_def)

lemma processedCount_body: "processedCount (body limit T fails row st) = processedCount st + 1"
  by (auto simp add: body_def Let_def logger_def split: prod.splits dest: counts_processRow(2))

lemma processedCount_arrive [simp]: "processedCount (arrive rt fails sched st) = processedCount st"
  by (rule arrive_field) simp_all

lemma calls_allSettled [simp]: "calls (allSettled fails st) = calls st"
  by (simp add: allSettled_def Let_def)

lemma calls_arrive [simp]: "calls (arrive rt fails sched st) = calls st"
  by (rule arrive_field) simp_all

text \<open>A loop that the process survives has read every row.\<close>

lemma forAwait_Cons_alive:
  assumes "\<not> crashed (forAwait rt limit T fails sched (row # rows) st)"
  shows "\<not> crashed (arrive rt fails sched st)"
    and "forAwait rt limit T fails sched (row # rows) st =
           forAwait rt limit T fails sched rows (body limit T fails row (arrive rt fails sched st))"
proof -
  show a: "\<not> crashed (arrive rt fails sched st)"
    using assms by (auto simp add: Let_def split: if_splits)
  then show "forAwait rt limit T fails sched (row # rows) st =
           forAwait rt limit T fails sched rows (body limit T fails row (arrive rt fails sched st))"
    by (simp add: Let_def)
qed

lemma processedCount_forAwait:
  assumes "\<not> crashed (forAwait rt limit T fails sched rows st)"
  shows "processedCount (forAwait rt limit T fails sched rows st) = processedCount st + length rows"
  using assms
proof (induction rows arbitrary: st)
  case Nil
  then show ?case by simp
next
  case (Cons row rows)
  note eq = forAwait_Cons_alive(2)[OF Cons.prems]
  have "processedCount (forAwait rt limit T fails sched rows
            (body limit T fails row (arrive rt fails sched st))) =
          processedCount (body limit T fails row (arrive rt fails sched st)) + length rows"
    using Cons.prems unfolding eq by (rule Cons.IH)
  then show ?case unfolding eq by (simp add: processedCount_body)
qed

text \<open>When no update fails, or under \<open>Warning\<close>, nothing ends the process.\<close>

lemma crashed_arrive_neverFails [simp]: "crashed (arrive rt neverFails sched st) = crashed st"
  by (simp add: arrive_def)

lemma crashed_forAwait_neverFails [simp]:
  "crashed (forAwait rt limit T neverFails sched rows st) = crashed st"
  by (induction rows arbitrary: st) (simp_all add: Let_def)

lemma alive_neverFails [simp]: "\<not> crashed (atRow rt e neverFails sched rows)"
  by (simp add: atRow_def)

lemma crashed_arrive_Warning [simp]: "crashed (arrive Warning fails sched st) = crashed st"
  by (simp add: arrive_def arriving_Warning)

lemma crashed_forAwait_Warning [simp]:
  "crashed (forAwait Warning limit T fails sched rows st) = crashed st"
  by (induction rows arbitrary: st) (simp_all add: Let_def)

lemma alive_Warning [simp]: "\<not> crashed (atRow Warning e fails sched rows)"
  by (simp add: atRow_def)

subsection \<open>The end of the run\<close>

text \<open>
  The rest of this section is about runs over a file read to its end that no
  uncaught exception has ended: \<open>\<not> crashed (atRow rt e fails sched rows)\<close>.
\<close>

lemma finished_eq:
  assumes "\<not> crashed (atRow rt e fails sched rows)"
  shows "finished rt e fails sched rows =
     logger INFO (CsvComplete (processedCount (if length (batch (atRow rt e fails sched rows)) > 0
            then allSettled fails (atRow rt e fails sched rows) else atRow rt e fails sched rows))
          (updatedCount (if length (batch (atRow rt e fails sched rows)) > 0
            then allSettled fails (atRow rt e fails sched rows) else atRow rt e fails sched rows)))
       (if length (batch (atRow rt e fails sched rows)) > 0
        then allSettled fails (atRow rt e fails sched rows) else atRow rt e fails sched rows)"
  using assms by (simp add: finished_def processCsvFile_started0 Let_def)

lemma structured_atRow: "structured (atRow rt e fails sched rows)"
  by (simp add: atRow_def structured_arrive structured_forAwait structured_started0)

lemma counted_atRow: "counted fails (atRow rt e fails sched rows)"
proof -
  have "counted fails (started0 e)" by (simp add: counted_def countUpdated_def successes_def)
  then show ?thesis
    by (simp add: atRow_def counted_arrive counted_forAwait structured_started0)
qed

lemma processedCount_atRow:
  assumes "\<not> crashed (atRow rt e fails sched rows)"
  shows "processedCount (atRow rt e fails sched rows) = length rows"
proof -
  have "\<not> crashed (forAwait rt (CONCURRENCY_LIMIT e) (TABLE_NAME e) fails sched rows (started0 e))"
    using assms crashed_arrive by (auto simp add: atRow_def)
  from processedCount_forAwait[OF this] show ?thesis by (simp add: atRow_def)
qed

lemma finished_counts:
  assumes "\<not> crashed (atRow rt e fails sched rows)"
  shows "processedCount (finished rt e fails sched rows) = length rows"
    and "updatedCount (finished rt e fails sched rows) =
           successes fails (calls (finished rt e fails sched rows))"
proof -
  let ?st = "atRow rt e fails sched rows"
  show "processedCount (finished rt e fails sched rows) = length rows"
    using processedCount_atRow[OF assms] by (simp add: finished_eq[OF assms] logger_def)
  show "updatedCount (finished rt e fails sched rows) = successes fails (calls (finished rt e fails sched rows))"
  proof (cases "length (batch ?st) > 0")
    case True
    then show ?thesis
      using updated_allSettled[OF structured_atRow[of rt e fails sched rows]
          counted_atRow[of fails rt e sched rows]]
      by (simp add: finished_eq[OF assms] logger_def)
  next
    case False
    then show ?thesis using counted_atRow[of fails rt e sched rows]
      by (simp add: finished_eq[OF assms] logger_def counted_def countUpdated_def)
  qed
qed

lemma main_finished:
  assumes "fs (csvFilePath e) = Some (File rows EndOfFile)"
    and "\<not> crashed (atRow rt e fails sched rows)"
  shows "main rt e fs fails sched =
    (0, logger INFO ExecutionTime
          (logger INFO (DevicesInSet (length (processedDevices (finished rt e fails sched rows))))
            (logger INFO (TotalUpdated (updatedCount (finished rt e fails sched rows)))
              (logger INFO (TotalProcessed (processedCount (finished rt e fails sched rows)))
                (logger INFO ProcessSummary (finished rt e fails sched rows))))))"
  using assms
  by (simp add: main_def Let_def finished_def started0_def[symmetric] processCsvFile_started0)

lemma tracked_allSettled_kept: "tracked st \<Longrightarrow> tracked (allSettled fails st)"
  using tracked_fold_deliver[of st fails "pendingIds (batch st)"]
  by (simp add: allSettled_def Let_def tracked_def requests_append succeeded_AllSettled)

lemma tracked_finished:
  assumes "\<not> crashed (atRow rt e fails sched rows)"
  shows "tracked (finished rt e fails sched rows)"
  using tracked_atRow[of rt e fails sched rows]
    tracked_allSettled_kept[OF tracked_atRow[of rt e fails sched rows], of fails]
  by (simp add: finished_eq[OF assms] logger_def tracked_def)

lemma calls_finished:
  assumes "\<not> crashed (atRow rt e fails sched rows)"
  shows "calls (finished rt e fails sched rows) = started (trace (finished rt e fails sched rows))"
proof -
  have "map fst (requests (trace (finished rt e fails sched rows))) = [0..<calls (finished rt e fails sched rows)]"
    using tracked_finished[OF assms] by (simp add: tracked_def)
  then have "length (map fst (requests (trace (finished rt e fails sched rows)))) =
      length [0..<calls (finished rt e fails sched rows)]"
    by simp
  then show ?thesis by (simp add: started_def)
qed

lemma inflight_finished:
  assumes "\<not> crashed (atRow rt e fails sched rows)"
  shows "inflight (trace (finished rt e fails sched rows)) = []"
  using inflight_settled[OF structured_atRow[of rt e fails sched rows], of fails]
  by (simp add: finished_eq[OF assms] logger_def)

lemma honest_atRow: "honest fails (trace (atRow rt e fails sched rows))"
proof -
  have "honest fails (trace (started0 e))" by (simp add: honest_def)
  then show ?thesis by (simp add: atRow_def honest_arrive honest_forAwait)
qed

lemma honest_finished:
  assumes "\<not> crashed (atRow rt e fails sched rows)"
  shows "honest fails (trace (finished rt e fails sched rows))"
  using honest_atRow[of fails rt e sched rows] honest_allSettled[of fails "atRow rt e fails sched rows"]
  by (simp add: finished_eq[OF assms] logger_def)

lemma finished_answered:
  assumes "\<not> crashed (atRow rt e fails sched rows)"
    and "(n, p) \<in> set (requests (trace (finished rt e fails sched rows)))"
  shows "Reply n (\<not> fails n) \<in> set (trace (finished rt e fails sched rows))"
proof -
  have "n \<in> set (map fst (requests (trace (finished rt e fails sched rows))))"
    using assms(2) by force
  from answered[OF this] obtain ok where "Reply n ok \<in> set (trace (finished rt e fails sched rows))"
    by (auto simp add: inflight_finished[OF assms(1)])
  then show ?thesis using honest_finished[OF assms(1)] by (auto simp add: honest_def)
qed

text \<open>
  A failure that is first seen by \<open>Promise.allSettled\<close> is isolated. For every file
  read to its end in a run that no uncaught exception has ended: each request sent is
  answered with its own outcome, the exit code is 0, and the summary reports every row
  as processed and counts as updated exactly the requests that succeeded.
\<close>

lemma isolation_when_handled:
  assumes "fs (csvFilePath e) = Some (File rows EndOfFile)"
    and "\<not> crashed (atRow rt e fails sched rows)"
  shows "((n, p) \<in> set (requests (trace (snd (main rt e fs fails sched)))) \<longrightarrow>
            Reply n (\<not> fails n) \<in> set (trace (snd (main rt e fs fails sched)))) \<and>
         fst (main rt e fs fails sched) = 0 \<and>
         (\<exists>pre. logs (snd (main rt e fs fails sched)) =
            pre @ [(INFO, ProcessSummary),
                   (INFO, TotalProcessed (length rows)),
                   (INFO, TotalUpdated (successes fails (started (trace (snd (main rt e fs fails sched)))))),
                   (INFO, DevicesInSet (length (processedDevices (snd (main rt e fs fails sched))))),
                   (INFO, ExecutionTime)])"
proof -
  note m = main_finished[of fs e rows rt fails sched, OF assms]
  have t: "trace (snd (main rt e fs fails sched)) = trace (finished rt e fails sched rows)"
    and d: "processedDevices (snd (main rt e fs fails sched)) = processedDevices (finished rt e fails sched rows)"
    and l: "logs (snd (main rt e fs fails sched)) =
        logs (finished rt e fails sched rows) @
          [(INFO, ProcessSummary),
           (INFO, TotalProcessed (processedCount (finished rt e fails sched rows))),
           (INFO, TotalUpdated (updatedCount (finished rt e fails sched rows))),
           (INFO, DevicesInSet (length (processedDevices (finished rt e fails sched rows)))),
           (INFO, ExecutionTime)]"
    and x: "fst (main rt e fs fails sched) = 0"
    unfolding m by (simp_all add: logger_def)
  show ?thesis
    unfolding t d l x
    using finished_answered[OF assms(2), of n p]
    by (simp add: finished_counts[OF assms(2)] calls_finished[OF assms(2)])
qed

text \<open>
  Claim C4. A run under the policy of Node.js 15 and later, with the default limit of
  20, over the first three rows of the scenario, in which the update of the first row
  fails and its reply arrives while the loop waits for the third row. The failure is
  not caught: the process ends with exit code 1. The request of the second row, in the
  same window, is left outstanding; the third row is never read; the log holds the
  start message and the two rows, with no entry for the failure and no summary.

  When the same failure is first seen by \<open>Promise.allSettled\<close> (no reply arrives
  before the flush) the run reads the three rows and ends with exit code 0, and the
  complete log again has no entry for the failure: the summary only shows 2 updated
  of 3 processed.
\<close>

theorem failure_aborts_run:
  "CONCURRENCY_LIMIT (envWith None) = Num 20 \<and>
   fst (main Fatal (envWith None)
          (onlyFile ''./logs-insights-results.csv'' (File (take 3 scenarioRows) EndOfFile))
          (failsAt [0]) (repliesAt [(2, [0])])) = 1 \<and>
   trace (snd (main Fatal (envWith None)
          (onlyFile ''./logs-insights-results.csv'' (File (take 3 scenarioRows) EndOfFile))
          (failsAt [0]) (repliesAt [(2, [0])]))) =
     [Update 0 (request ''qa-user'' ''u1'' ''z1'' ''Mac''),
      Update 1 (request ''qa-user'' ''u2'' ''z2'' ''Mac''),
      Reply 0 False] \<and>
   inflight (trace (snd (main Fatal (envWith None)
          (onlyFile ''./logs-insights-results.csv'' (File (take 3 scenarioRows) EndOfFile))
          (failsAt [0]) (repliesAt [(2, [0])])))) = [1] \<and>
   processedCount (snd (main Fatal (envWith None)
          (onlyFile ''./logs-insights-results.csv'' (File (take 3 scenarioRows) EndOfFile))
          (failsAt [0]) (repliesAt [(2, [0])]))) = 2 \<and>
   logs (snd (main Fatal (envWith None)
          (onlyFile ''./logs-insights-results.csv'' (File (take 3 scenarioRows) EndOfFile))
          (failsAt [0]) (repliesAt [(2, [0])]))) =
     [(INFO, StartingProcess ''qa-user'' ''./logs-insights-results.csv''),
      (INFO, Processing ''u1'' ''z1'' ''mac''),
      (INFO, Processing ''u2'' ''z2'' ''Mac'')] \<and>
   fst (main Fatal (envWith None)
          (onlyFile ''./logs-insights-results.csv'' (File (take 3 scenarioRows) EndOfFile))
          (failsAt [0]) noEarlyReplies) = 0 \<and>
   logs (snd (main Fatal (envWith None)
          (onlyFile ''./logs-insights-results.csv'' (File (take 3 scenarioRows) EndOfFile))
          (failsAt [0]) noEarlyReplies)) =
     [(INFO, StartingProcess ''qa-user'' ''./logs-insights-results.csv''),
      (INFO, Processing ''u1'' ''z1'' ''mac''),
      (INFO, Processing ''u2'' ''z2'' ''Mac''),
      (INFO, Processing ''u3'' ''z3'' ''macOS''),
      (INFO, CsvComplete 3 2),
      (INFO, ProcessSummary),
      (INFO, TotalProcessed 3),
      (INFO, TotalUpdated 2),
      (INFO, DevicesInSet 2),
      (INFO, ExecutionTime)]"
  by code_simp

section \<open>The summary of a run\<close>

subsection \<open>How many requests are sent\<close>

lemma requestedDevices_body:
  "requestedDevices (trace (body limit T fails r st)) =
     requestedDevices (trace st) @
       (if classifiable r \<and> col r ''zid'' \<notin> set (processedDevices st) then [col r ''zid''] else [])"
  by (auto simp add: requestedDevices_def body_def Let_def processRow_cases logger_def
      requests_append classifiable_def split: option.splits)

lemma requestedDevices_Nil [simp]: "requestedDevices [] = []"
  by (simp add: requestedDevices_def)

lemma requestedDevices_arrive [simp]:
  "requestedDevices (trace (arrive rt fails sched st)) = requestedDevices (trace st)"
  by (rule arrive_field[where f = "\<lambda>s. requestedDevices (trace s)"])
    (simp_all add: requestedDevices_def)

lemma requestedDevices_allSettled [simp]:
  "requestedDevices (trace (allSettled fails st)) = requestedDevices (trace st)"
  by (simp add: requestedDevices_def)

lemma succeeded_subset: "set (succeeded es) \<subseteq> set (requestedDevices es)"
  by (auto simp add: succeeded_def requestedDevices_def)

lemma tracked_requested:
  "tracked st \<Longrightarrow> set (processedDevices st) \<subseteq> set (requestedDevices (trace st))"
  using succeeded_subset[of "trace st"] by (simp add: tracked_devices)

lemma requested_forAwait:
  assumes "tracked st" and "\<not> crashed (forAwait rt limit T fails sched rows st)"
  shows "set (requestedDevices (trace (forAwait rt limit T fails sched rows st))) =
     set (requestedDevices (trace st)) \<union> set (map (\<lambda>r. col r ''zid'') (filter classifiable rows))"
  using assms
proof (induction rows arbitrary: st)
  case Nil
  then show ?case by simp
next
  case (Cons r rows)
  let ?st = "arrive rt fails sched st"
  note eq = forAwait_Cons_alive(2)[OF Cons.prems(2)]
  have a: "tracked ?st" using Cons.prems(1) by (rule tracked_arrive)
  have sub: "set (processedDevices ?st) \<subseteq> set (requestedDevices (trace st))"
    using tracked_requested[OF a] by simp
  have b: "set (requestedDevices (trace (body limit T fails r ?st))) =
      set (requestedDevices (trace st)) \<union> (if classifiable r then {col r ''zid''} else {})"
    using sub by (auto simp add: requestedDevices_body)
  have "set (requestedDevices (trace (forAwait rt limit T fails sched rows (body limit T fails r ?st)))) =
      set (requestedDevices (trace (body limit T fails r ?st))) \<union>
      set (map (\<lambda>r. col r ''zid'') (filter classifiable rows))"
    using Cons.prems(2) unfolding eq by (intro Cons.IH tracked_body a)
  then show ?case unfolding eq b by auto
qed

lemma started_forAwait:
  "length (requestedDevices (trace (forAwait rt limit T fails sched rows st))) \<le>
     length (requestedDevices (trace st)) + length (filter classifiable rows)"
proof (induction rows arbitrary: st)
  case Nil
  then show ?case by simp
next
  case (Cons r rows)
  have "length (requestedDevices (trace (body limit T fails r (arrive rt fails sched st)))) \<le>
      length (requestedDevices (trace st)) + (if classifiable r then 1 else 0)"
    by (simp add: requestedDevices_body)
  with Cons[of "body limit T fails r (arrive rt fails sched st)"] show ?case
    by (auto simp add: Let_def)
qed

lemma requestedDevices_finished:
  assumes "\<not> crashed (atRow rt e fails sched rows)"
  shows "requestedDevices (trace (finished rt e fails sched rows)) =
     requestedDevices (trace (forAwait rt (CONCURRENCY_LIMIT e) (TABLE_NAME e) fails sched rows (started0 e)))"
  by (simp add: finished_eq[OF assms] logger_def) (simp add: atRow_def)

lemma started_requested: "started es = length (requestedDevices es)"
  by (simp add: started_def requestedDevices_def)

lemma finished_requested:
  assumes "\<not> crashed (atRow rt e fails sched rows)"
  shows "set (requestedDevices (trace (finished rt e fails sched rows))) = set (classifiedDevices rows)"
proof -
  have "\<not> crashed (forAwait rt (CONCURRENCY_LIMIT e) (TABLE_NAME e) fails sched rows (started0 e))"
    using assms crashed_arrive by (auto simp add: atRow_def)
  from requested_forAwait[OF tracked_started0 this] show ?thesis
    by (simp add: requestedDevices_finished[OF assms] classifiedDevices_def)
qed

lemma finished_started_bounds:
  assumes "\<not> crashed (atRow rt e fails sched rows)"
  shows "length (classifiedDevices rows) \<le> started (trace (finished rt e fails sched rows))"
    and "started (trace (finished rt e fails sched rows)) \<le> length (filter classifiable rows)"
proof -
  have "length (classifiedDevices rows) = card (set (classifiedDevices rows))"
    by (simp add: classifiedDevices_def length_remdups_card_conv)
  also have "\<dots> = card (set (requestedDevices (trace (finished rt e fails sched rows))))"
    by (simp add: finished_requested[OF assms])
  also have "\<dots> \<le> length (requestedDevices (trace (finished rt e fails sched rows)))"
    by (rule card_length)
  finally show "length (classifiedDevices rows) \<le> started (trace (finished rt e fails sched rows))"
    by (simp add: started_requested)
  show "started (trace (finished rt e fails sched rows)) \<le> length (filter classifiable rows)"
    using started_forAwait[of rt "CONCURRENCY_LIMIT e" "TABLE_NAME e" fails sched rows "started0 e"]
    by (simp add: started_requested requestedDevices_finished[OF assms])
qed

subsection \<open>The size of the tracker\<close>

lemma distinct_setAdd: "distinct ps \<Longrightarrow> distinct (setAdd z ps)"
  by (simp add: setAdd_def)

lemma distinct_deliver:
  "distinct (processedDevices st) \<Longrightarrow> distinct (processedDevices (deliver fails n st))"
  by (simp add: deliver_cases distinct_setAdd split: option.splits)

lemma distinct_fold_deliver:
  "distinct (processedDevices st) \<Longrightarrow> distinct (processedDevices (fold (deliver fails) ns st))"
  by (induction ns arbitrary: st) (simp_all add: distinct_deliver)

lemma distinct_allSettled:
  "distinct (processedDevices st) \<Longrightarrow> distinct (processedDevices (allSettled fails st))"
  by (simp add: allSettled_def Let_def distinct_fold_deliver)

lemma devices_processRow:
  "processRow T row st = (p, st') \<Longrightarrow> processedDevices st' = processedDevices st"
  by (auto simp add: processRow_cases split: if_splits option.splits)

lemma distinct_body:
  assumes "distinct (processedDevices st)"
  shows "distinct (processedDevices (body limit T fails row st))"
proof -
  let ?st1 = "st\<lparr> processedCount := processedCount st + 1 \<rparr>"
  obtain p st2 where pr: "processRow T row ?st1 = (p, st2)" by (cases "processRow T row ?st1")
  have d2: "distinct (processedDevices (st2\<lparr> batch := batch st2 @ [p] \<rparr>))"
    using devices_processRow[OF pr] assms by simp
  show ?thesis using assms pr d2 distinct_allSettled[OF d2, of fails]
    by (simp add: body_def Let_def logger_def)
qed

lemma distinct_arrive:
  "distinct (processedDevices st) \<Longrightarrow> distinct (processedDevices (arrive rt fails sched st))"
  by (rule arrive_preserves[where P = "\<lambda>s. distinct (processedDevices s)"])
    (simp_all add: distinct_deliver)

lemma distinct_forAwait:
  "distinct (processedDevices st) \<Longrightarrow>
   distinct (processedDevices (forAwait rt limit T fails sched rows st))"
  by (rule forAwait_preserves[where P = "\<lambda>s. distinct (processedDevices s)", rotated 2])
    (simp_all add: distinct_body distinct_arrive)

lemma distinct_finished:
  assumes "\<not> crashed (atRow rt e fails sched rows)"
  shows "distinct (processedDevices (finished rt e fails sched rows))"
proof -
  have "distinct (processedDevices (atRow rt e fails sched rows))"
    by (simp add: atRow_def distinct_arrive distinct_forAwait)
  then show ?thesis using distinct_allSettled[of "atRow rt e fails sched rows" fails]
    by (simp add: finished_eq[OF assms] logger_def)
qed

lemma all_succeeded:
  "succeeded (trace (finished rt e neverFails sched rows)) =
     requestedDevices (trace (finished rt e neverFails sched rows))"
proof -
  have "Reply (fst np) True \<in> set (trace (finished rt e neverFails sched rows))"
    if "np \<in> set (requests (trace (finished rt e neverFails sched rows)))" for np
    using finished_answered[OF alive_neverFails, of "fst np" "snd np" rt e sched rows] that
    by (simp add: neverFails_def)
  then show ?thesis by (simp add: succeeded_def requestedDevices_def)
qed

lemma devices_finished:
  "length (processedDevices (finished rt e neverFails sched rows)) = length (classifiedDevices rows)"
proof -
  have "set (processedDevices (finished rt e neverFails sched rows)) = set (classifiedDevices rows)"
    using tracked_devices[OF tracked_finished[OF alive_neverFails, of rt e sched rows]]
    by (simp add: all_succeeded finished_requested[OF alive_neverFails])
  then have "card (set (processedDevices (finished rt e neverFails sched rows))) =
      card (set (classifiedDevices rows))"
    by simp
  then show ?thesis
    using distinct_finished[OF alive_neverFails, of rt e sched rows]
    by (simp add: distinct_card classifiedDevices_def length_remdups_card_conv)
qed

lemma successes_neverFails [simp]: "successes neverFails k = k"
  by (simp add: successes_def neverFails_def)

subsection \<open>One task at a time\<close>

lemma deliver_idle: "batch st = [] \<Longrightarrow> deliver fails n st = st"
  by (simp add: deliver_def)

lemma fold_deliver_idle: "batch st = [] \<Longrightarrow> fold (deliver fails) ns st = st"
  by (induction ns) (simp_all add: deliver_idle)

lemma sequential_body:
  assumes "sequential st" and "w \<le> 1"
  shows "sequential (body (Num w) T neverFails r st)"
proof -
  have b: "batch st = []" using assms(1) by (simp add: sequential_def)
  have g: "lengthGe (Suc 0) (Num w)" using assms(2) by simp
  have 1: "batch (body (Num w) T neverFails r st) = []"
    using b g by (simp add: body_def Let_def logger_def processRow_cases split: option.splits)
  have 2: "set (processedDevices (body (Num w) T neverFails r st)) =
      set (processedDevices st) \<union>
        (if classifiable r \<and> col r ''zid'' \<notin> set (processedDevices st) then {col r ''zid''} else {})"
    using b g
    by (auto simp add: body_def Let_def logger_def processRow_cases allSettled_def deliver_def
        neverFails_def classifiable_def split: option.splits)
  show ?thesis
    using assms(1) 1 2 unfolding sequential_def by (auto simp add: requestedDevices_body)
qed

lemma sequential_forAwait:
  "sequential st \<Longrightarrow> w \<le> 1 \<Longrightarrow> sequential (forAwait rt (Num w) T neverFails sched rows st)"
proof (induction rows arbitrary: st)
  case Nil
  then show ?case by simp
next
  case (Cons r rows)
  have "arrive rt neverFails sched st = st"
    using Cons.prems(1) by (simp add: arrive_def sequential_def arriving_idle)
  then show ?case using Cons.IH[OF sequential_body[OF Cons.prems]] Cons.prems by (simp add: Let_def)
qed

lemma sequential_started:
  assumes "CONCURRENCY_LIMIT e = Num w" and "w \<le> 1"
  shows "started (trace (finished rt e neverFails sched rows)) = length (classifiedDevices rows)"
proof -
  have "sequential (started0 e)" by (simp add: sequential_def)
  from sequential_forAwait[OF this assms(2), of rt "TABLE_NAME e" sched rows]
  have "distinct (requestedDevices (trace (finished rt e neverFails sched rows)))"
    using assms(1) by (simp add: sequential_def requestedDevices_finished[OF alive_neverFails])
  then have "length (requestedDevices (trace (finished rt e neverFails sched rows))) =
      card (set (requestedDevices (trace (finished rt e neverFails sched rows))))"
    by (simp add: distinct_card)
  then show ?thesis
    by (simp add: started_requested finished_requested[OF alive_neverFails] classifiedDevices_def
        length_remdups_card_conv)
qed

text \<open>
  Claim C5, as the code has it. The scenario input has 8 rows, 6 of which pass
  validation and classification, on 5 distinct devices. \<open>processedCount\<close> is
  incremented for every row read, before validation, so the summary reports 8
  processed, not 7. With every update succeeding the summary reports 5 devices in the
  tracker and an updated count of 5 or 6: 5 when every task is settled before the next
  row is read (a limit of at most 1), 6 when the repeated row is read while the update
  of its first occurrence is outstanding. The summary has no line for skipped rows.
\<close>

theorem scenario_summary:
  assumes "fs (csvFilePath e) = Some (File rows EndOfFile)"
    and "length rows = 8" and "length (filter classifiable rows) = 6"
    and "length (classifiedDevices rows) = 5"
  shows "\<exists>pre u. logs (snd (main rt e fs neverFails sched)) =
            pre @ [(INFO, ProcessSummary), (INFO, TotalProcessed 8), (INFO, TotalUpdated u),
                   (INFO, DevicesInSet 5), (INFO, ExecutionTime)] \<and>
          5 \<le> u \<and> u \<le> 6 \<and> (CONCURRENCY_LIMIT e = Num w \<and> w \<le> 1 \<longrightarrow> u = 5)"
proof -
  let ?fin = "finished rt e neverFails sched rows"
  note m = main_finished[of fs e rows rt neverFails sched, OF assms(1) alive_neverFails]
  have l: "logs (snd (main rt e fs neverFails sched)) =
        logs ?fin @
          [(INFO, ProcessSummary), (INFO, TotalProcessed 8),
           (INFO, TotalUpdated (started (trace ?fin))),
           (INFO, DevicesInSet 5), (INFO, ExecutionTime)]"
    unfolding m using assms(2,4)
    by (simp add: logger_def finished_counts[OF alive_neverFails] calls_finished[OF alive_neverFails]
        devices_finished)
  have b: "5 \<le> started (trace ?fin)" "started (trace ?fin) \<le> 6"
    using finished_started_bounds[OF alive_neverFails, where rows = rows and e = e
        and sched = sched and rt = rt] assms(3,4) by simp_all
  have s: "CONCURRENCY_LIMIT e = Num w \<and> w \<le> 1 \<longrightarrow> started (trace ?fin) = 5"
    using sequential_started[of e w rt sched rows] assms(4) by simp
  show ?thesis using l b s by blast
qed

theorem scenario_summary_witness:
  "onlyFile ''./logs-insights-results.csv'' (File scenarioRows EndOfFile) (csvFilePath (envWith (Some ''1''))) =
     Some (File scenarioRows EndOfFile) \<and>
   length scenarioRows = 8 \<and> length (filter classifiable scenarioRows) = 6 \<and>
   length (classifiedDevices scenarioRows) = 5 \<and>
   CONCURRENCY_LIMIT (envWith (Some ''1'')) = Num 1 \<and>
   (\<exists>pre. logs (snd (main Fatal (envWith (Some ''1''))
       (onlyFile ''./logs-insights-results.csv'' (File scenarioRows EndOfFile)) neverFails noEarlyReplies)) =
      pre @ [(INFO, ProcessSummary), (INFO, TotalProcessed 8), (INFO, TotalUpdated 5),
             (INFO, DevicesInSet 5), (INFO, ExecutionTime)]) \<and>
   onlyFile ''./logs-insights-results.csv'' (File scenarioRows EndOfFile) (csvFilePath (envWith None)) =
     Some (File scenarioRows EndOfFile) \<and>
   (\<exists>pre u. logs (snd (main Fatal (envWith None)
       (onlyFile ''./logs-insights-results.csv'' (File scenarioRows EndOfFile)) neverFails
       (repliesAt [(7, [0])]))) =
      pre @ [(INFO, ProcessSummary), (INFO, TotalProcessed 8), (INFO, TotalUpdated u),
             (INFO, DevicesInSet 5), (INFO, ExecutionTime)] \<and> 5 \<le> u \<and> u \<le> 6) \<and>
   (INFO, TotalUpdated 5) \<in> set (logs (snd (main Fatal (envWith None)
       (onlyFile ''./logs-insights-results.csv'' (File scenarioRows EndOfFile)) neverFails
       (repliesAt [(7, [0])]))))"
proof -
  let ?e = "envWith (Some ''1'')"
  let ?fs = "onlyFile ''./logs-insights-results.csv'' (File scenarioRows EndOfFile)"
  have h1: "?fs (csvFilePath ?e) = Some (File scenarioRows EndOfFile)"
    by (simp add: onlyFile_def csvFilePath_def envWith_def orDefault_def)
  have h2: "length scenarioRows = 8" by code_simp
  have h3: "length (filter classifiable scenarioRows) = 6" by code_simp
  have h4: "length (classifiedDevices scenarioRows) = 5" by code_simp
  have h5: "CONCURRENCY_LIMIT ?e = Num 1" by code_simp
  have h6: "?fs (csvFilePath (envWith None)) = Some (File scenarioRows EndOfFile)"
    by (simp add: onlyFile_def csvFilePath_def envWith_def orDefault_def)
  have early: "(INFO, TotalUpdated 5) \<in> set (logs (snd (main Fatal (envWith None) ?fs neverFails
      (repliesAt [(7, [0])]))))"
    by code_simp
  from scenario_summary[of ?fs ?e scenarioRows Fatal noEarlyReplies 1, OF h1 h2 h3 h4] h5
  have a: "\<exists>pre. logs (snd (main Fatal ?e ?fs neverFails noEarlyReplies)) =
      pre @ [(INFO, ProcessSummary), (INFO, TotalProcessed 8), (INFO, TotalUpdated 5),
             (INFO, DevicesInSet 5), (INFO, ExecutionTime)]"
    by auto
  from scenario_summary[of ?fs "envWith None" scenarioRows Fatal "repliesAt [(7, [0])]" 1, OF h6 h2 h3 h4]
  have b: "\<exists>pre u. logs (snd (main Fatal (envWith None) ?fs neverFails (repliesAt [(7, [0])]))) =
      pre @ [(INFO, ProcessSummary), (INFO, TotalProcessed 8), (INFO, TotalUpdated u),
             (INFO, DevicesInSet 5), (INFO, ExecutionTime)] \<and> 5 \<le> u \<and> u \<le> 6"
    by blast
  show ?thesis using h1 h2 h3 h4 h5 h6 a b early by simp
qed

text \<open>
  The scenario input with a limit of 1 and no failure: the complete log, with the three
  skipped rows logged and 8 rows processed. With the default limit and no reply before
  the flush the summary reports 6 updated.
\<close>

theorem scenario_summary_counterexample:
  "logs (snd (main Fatal (envWith (Some ''1''))
      (onlyFile ''./logs-insights-results.csv'' (File scenarioRows EndOfFile)) neverFails noEarlyReplies)) =
     [(INFO, StartingProcess ''qa-user'' ''./logs-insights-results.csv''),
      (INFO, Processing ''u1'' ''z1'' ''mac''),
      (INFO, Processing ''u2'' ''z2'' ''Mac''),
      (INFO, Processing ''u3'' ''z3'' ''macOS''),
      (INFO, Processing ''u4'' ''z4'' ''windows''),
      (INFO, Processing ''u5'' ''z5'' ''Windows''),
      (INFO, Processing ''u6'' ''z6'' ''linux''),
      (INFO, NoOsDetected ''u6'' ''z6''),
      (WARN, MissingData (mkRow [] ''z7'' ''mac'')),
      (INFO, Processing ''u1'' ''z1'' ''mac''),
      (INFO, SkippingUpdate ''u1'' ''z1''),
      (INFO, CsvComplete 8 5),
      (INFO, ProcessSummary),
      (INFO, TotalProcessed 8),
      (INFO, TotalUpdated 5),
      (INFO, DevicesInSet 5),
      (INFO, ExecutionTime)] \<and>
   drop 11 (logs (snd (main Fatal (envWith None)
      (onlyFile ''./logs-insights-results.csv'' (File scenarioRows EndOfFile)) neverFails noEarlyReplies))) =
     [(INFO, ProcessSummary),
      (INFO, TotalProcessed 8),
      (INFO, TotalUpdated 6),
      (INFO, DevicesInSet 5),
      (INFO, ExecutionTime)]"
  by code_simp

end
